theory Spec2Isabelle
  imports Main
begin

section \<open>The trace-console package: a deferred message queue\<close>

text \<open>
  The package \<^verbatim>\<open>packages/trace-console/index.js\<close> keeps its state in one module-level
  object \<^verbatim>\<open>ctx\<close> and in the \<^verbatim>\<open>Message\<close> objects that hang off it as a singly linked
  list. The model below keeps that shape:

  \<^item> a \<^verbatim>\<open>Message\<close> object is a record with the four fields the constructor sets;
  \<^item> references to \<^verbatim>\<open>Message\<close> objects are addresses into an object store
    (\<open>heap\<close>), \<^verbatim>\<open>null\<close> is \<open>None\<close>, and \<^verbatim>\<open>new Message(...)\<close> takes the next unused
    address (\<open>fresh\<close>);
  \<^item> the fields of \<^verbatim>\<open>ctx\<close>, the object store and what has been printed on the two
    console streams form one state record that every function passes on;
  \<^item> reading a property of \<^verbatim>\<open>null\<close> raises \<^verbatim>\<open>TypeError\<close>, and \<^verbatim>\<open>new Array(n)\<close> with a
    negative \<open>n\<close> raises \<^verbatim>\<open>RangeError\<close>; both are results of the model, and a function
    that can raise returns \<open>Inl\<close> of the error or \<open>Inr\<close> of the new state. An address
    without an object in the store is no reference that JavaScript could hold; reading
    through it counts as \<^verbatim>\<open>TypeError\<close> too;
  \<^item> \<^verbatim>\<open>console.log\<close> writes a line to the standard output stream, \<^verbatim>\<open>console.warn\<close> and
    \<^verbatim>\<open>console.error\<close> write a line to the standard error stream;
  \<^item> \<^verbatim>\<open>process.on('exit', show)\<close> makes the runtime call \<^verbatim>\<open>show\<close> when the process ends;
    the model has \<^verbatim>\<open>show\<close> as a function of the state (\<open>show_queue\<close>);
  \<^item> numbers are mathematical integers and strings are lists of characters: the
    limits of the engine (exactness of numbers beyond \<open>2^53\<close>, the largest array
    and the longest string) are not part of the model.

  \<^verbatim>\<open>util.format\<close> belongs to Node.js, not to the package. The package looks at an
  argument list in two ways only: whether it is empty (\<^verbatim>\<open>arguments.length > 0\<close>) and
  what \<^verbatim>\<open>util.format\<close> makes of it. An argument list is therefore represented by
  \<open>None\<close> when it is empty and by \<open>Some m\<close> when it is not empty and
  \<^verbatim>\<open>util.format\<close> renders it as \<open>m\<close>; \<^verbatim>\<open>util.format()\<close> without arguments is the
  empty string.
\<close>

subsection \<open>Data\<close>

type_synonym addr = nat

datatype error = TypeError | RangeError

datatype stream = Stdout | Stderr

record Message =
  "next" :: "addr option"
  "text" :: string
  width :: int
  type :: nat

definition new_Message :: "string \<Rightarrow> int \<Rightarrow> nat \<Rightarrow> Message" where
  "new_Message t w ty = \<lparr> next = None, text = t, width = w, type = ty \<rparr>"

definition LOG :: nat where "LOG = 1"
definition WARN :: nat where "WARN = 2"
definition ERROR :: nat where "ERROR = 3"

record state =
  indentSize :: int
  indentLevel :: int
  indentWidth :: int
  head :: "addr option"
  tail :: "addr option"
  names :: "string list"
  heap :: "addr \<Rightarrow> Message option"
  fresh :: addr
  console :: "(stream \<times> string) list"

definition init :: state where
  "init = \<lparr> indentSize = 2, indentLevel = 0, indentWidth = 0, head = None, tail = None,
            names = [], heap = (\<lambda>a. None), fresh = 0, console = [] \<rparr>"

type_synonym arguments = "string option"

definition format :: "arguments \<Rightarrow> string" where
  "format a = (case a of None \<Rightarrow> [] | Some m \<Rightarrow> m)"

subsection \<open>Helpers\<close>

text \<open>\<^verbatim>\<open>new Array(count + 1).join(str)\<close>: \<open>count\<close> copies of \<open>str\<close>, none when
  \<open>count + 1 = 0\<close>, \<^verbatim>\<open>RangeError\<close> when \<open>count + 1\<close> is negative.\<close>

definition repeat :: "string \<Rightarrow> int \<Rightarrow> error + string" where
  "repeat str count =
     (if count + 1 < 0 then Inl RangeError
      else Inr (concat (replicate (nat (count + 1) - 1) str)))"

text \<open>The arguments of \<^verbatim>\<open>join2\<close> may be \<^verbatim>\<open>undefined\<close> (\<open>None\<close>); a string is truthy when
  it is not empty.\<close>

definition truthy :: "string option \<Rightarrow> bool" where
  "truthy v = (case v of None \<Rightarrow> False | Some str \<Rightarrow> str \<noteq> [])"

definition join2 :: "string option \<Rightarrow> string option \<Rightarrow> string" where
  "join2 str1 str2 =
     (if truthy str1 then
        (if truthy str2 then the str1 @ '' '' @ the str2 else the str1)
      else (case str2 of None \<Rightarrow> [] | Some m \<Rightarrow> m))"

text \<open>\<^verbatim>\<open>text.replace(/\n/g, '\n' + indentation)\<close>; the callers pass runs of spaces as
  \<open>indentation\<close>, in which the replacement patterns of \<^verbatim>\<open>replace\<close> do not occur.\<close>

definition replace_newlines :: "string \<Rightarrow> string \<Rightarrow> string" where
  "replace_newlines indentation t =
     concat (map (\<lambda>c. if c = CHR 0x0A then CHR 0x0A # indentation else [c]) t)"

definition indent :: "string \<Rightarrow> string \<Rightarrow> string" where
  "indent indentation t =
     (if length indentation \<noteq> 0 then
        indentation @ (if CHR 0x0A \<in> set t then replace_newlines indentation t else t)
      else t)"

text \<open>\<^verbatim>\<open>message.match(/\w+/)\<close>: the first maximal run of word characters
  (\<^verbatim>\<open>[A-Za-z0-9_]\<close>), \<^verbatim>\<open>null\<close> when the string has none.\<close>

definition is_word_char :: "char \<Rightarrow> bool" where
  "is_word_char c =
     (let n = (of_char c :: nat)
      in (48 \<le> n \<and> n \<le> 57) \<or> (65 \<le> n \<and> n \<le> 90) \<or> n = 95 \<or> (97 \<le> n \<and> n \<le> 122))"

definition match_word :: "string \<Rightarrow> string option" where
  "match_word message =
     (case dropWhile (\<lambda>c. \<not> is_word_char c) message of
        [] \<Rightarrow> None
      | c # cs \<Rightarrow> Some (takeWhile is_word_char (c # cs)))"

definition console_log :: "string \<Rightarrow> state \<Rightarrow> state" where
  "console_log line s = s\<lparr> console := console s @ [(Stdout, line)] \<rparr>"

definition console_warn :: "string \<Rightarrow> state \<Rightarrow> state" where
  "console_warn line s = s\<lparr> console := console s @ [(Stderr, line)] \<rparr>"

definition console_error :: "string \<Rightarrow> state \<Rightarrow> state" where
  "console_error line s = s\<lparr> console := console s @ [(Stderr, line)] \<rparr>"

subsection \<open>The queue\<close>

text \<open>\<^verbatim>\<open>write(text, type)\<close>: a new \<^verbatim>\<open>Message\<close> with the current \<^verbatim>\<open>ctx.indentWidth\<close> becomes
  the head of an empty queue, or the \<^verbatim>\<open>next\<close> of the tail, and then the tail.\<close>

definition "write" :: "string \<Rightarrow> nat \<Rightarrow> state \<Rightarrow> error + state" where
  "write t ty s =
     (let message = fresh s;
          s1 = s\<lparr> heap := (heap s)(message \<mapsto> new_Message t (indentWidth s) ty),
                  fresh := Suc message \<rparr>
      in case head s1 of
           None \<Rightarrow> Inr (s1\<lparr> head := Some message, tail := Some message \<rparr>)
         | Some h \<Rightarrow>
             (case tail s1 of
                None \<Rightarrow> Inl TypeError
              | Some tail_msg \<Rightarrow>
                  (case heap s1 tail_msg of
                     None \<Rightarrow> Inl TypeError
                   | Some m \<Rightarrow>
                       Inr (s1\<lparr> heap := (heap s1)(tail_msg \<mapsto> m\<lparr> next := Some message \<rparr>),
                                tail := Some message \<rparr>))))"

text \<open>The \<^verbatim>\<open>do ... while (curr)\<close> loop of \<^verbatim>\<open>show\<close>, as a function of its variables \<^verbatim>\<open>curr\<close>
  (here \<open>cur\<close>), \<^verbatim>\<open>indentwidth\<close> and \<^verbatim>\<open>indentation\<close> and of the state. The loop follows
  \<^verbatim>\<open>next\<close> references and need not end on every object store, so its result is
  optional: \<open>None\<close> is a loop that never ends.\<close>

partial_function (option) show_loop ::
  "addr \<Rightarrow> int \<Rightarrow> string \<Rightarrow> state \<Rightarrow> (error + state) option" where
  "show_loop cur indentwidth indentation s =
     (case heap s cur of
        None \<Rightarrow> Some (Inl TypeError)
      | Some m \<Rightarrow>
          (case (if width m \<noteq> indentwidth
                 then (case repeat '' '' (width m) of
                         Inl e \<Rightarrow> Inl e
                       | Inr r \<Rightarrow> Inr (width m, r))
                 else Inr (indentwidth, indentation)) of
             Inl e \<Rightarrow> Some (Inl e)
           | Inr (indentwidth', indentation') \<Rightarrow>
               (let s' = (if type m = LOG then console_log (indent indentation' (text m)) s
                          else if type m = WARN then console_warn (indent indentation' (text m)) s
                          else console_error (indent indentation' (text m)) s)
                in case next m of
                     None \<Rightarrow> Some (Inr s')
                   | Some n \<Rightarrow> show_loop n indentwidth' indentation' s')))"

text \<open>\<^verbatim>\<open>show()\<close>, under the name \<open>show_queue\<close>.\<close>

definition show_queue :: "state \<Rightarrow> (error + state) option" where
  "show_queue s =
     (case head s of
        None \<Rightarrow> Some (Inr s)
      | Some cur \<Rightarrow>
          (case repeat ''-'' 80 of
             Inl e \<Rightarrow> Some (Inl e)
           | Inr line \<Rightarrow> show_loop cur 0 [] (console_log line s)))"

subsection \<open>The exported functions\<close>

text \<open>\<^verbatim>\<open>exports.f\<close> is \<open>exports_f\<close>; \<^verbatim>\<open>exports.group\<close> and \<^verbatim>\<open>exports.groupEnd\<close> are other names
  of \<^verbatim>\<open>exports.indent\<close> and \<^verbatim>\<open>exports.unindent\<close>.\<close>

definition exports_log :: "arguments \<Rightarrow> state \<Rightarrow> error + state" where
  "exports_log a s = write (format a) LOG s"

definition exports_warn :: "arguments \<Rightarrow> state \<Rightarrow> error + state" where
  "exports_warn a s = write (format a) WARN s"

definition exports_error :: "arguments \<Rightarrow> state \<Rightarrow> error + state" where
  "exports_error a s = write (format a) ERROR s"

definition exports_ignore :: "arguments \<Rightarrow> state \<Rightarrow> error + state" where
  "exports_ignore a s = Inr s"

definition exports_indent :: "arguments \<Rightarrow> state \<Rightarrow> error + state" where
  "exports_indent a s =
     (case (if a \<noteq> None then exports_log a s else Inr s) of
        Inl e \<Rightarrow> Inl e
      | Inr s1 \<Rightarrow>
          Inr (s1\<lparr> indentLevel := indentLevel s1 + 1,
                   indentWidth := (indentLevel s1 + 1) * indentSize s1 \<rparr>))"

definition exports_unindent :: "state \<Rightarrow> error + state" where
  "exports_unindent s =
     (if indentLevel s > 0
      then Inr (s\<lparr> indentLevel := indentLevel s - 1,
                    indentWidth := (indentLevel s - 1) * indentSize s \<rparr>)
      else Inr s)"

definition exports_enter :: "arguments \<Rightarrow> state \<Rightarrow> error + state" where
  "exports_enter a s =
     (let message = format a;
          s1 = s\<lparr> names := names s @ [case match_word message of
                                         Some w \<Rightarrow> w | None \<Rightarrow> message] \<rparr>
      in case repeat '' '' (indentSize s1 - 1) of
           Inl e \<Rightarrow> Inl e
         | Inr pad \<Rightarrow>
             (case write (''>'' @ pad @ message) LOG s1 of
                Inl e \<Rightarrow> Inl e
              | Inr s2 \<Rightarrow> exports_indent None s2))"

text \<open>\<^verbatim>\<open>ctx.names.pop()\<close> removes and returns the last element, \<^verbatim>\<open>undefined\<close> on an
  empty array.\<close>

definition pop :: "string list \<Rightarrow> string option \<times> string list" where
  "pop xs = (if xs = [] then (None, []) else (Some (last xs), butlast xs))"

definition exports_leave :: "arguments \<Rightarrow> state \<Rightarrow> error + state" where
  "exports_leave a s =
     (let message = format a;
          (name, rest) = pop (names s);
          s1 = s\<lparr> names := rest \<rparr>
      in case repeat '' '' (indentSize s1 - 1) of
           Inl e \<Rightarrow> Inl e
         | Inr pad \<Rightarrow>
             (case exports_unindent s1 of
                Inl e \<Rightarrow> Inl e
              | Inr s2 \<Rightarrow> write (''<'' @ pad @ join2 name (Some message)) LOG s2))"

text \<open>A call of one exported function, and a sequence of calls from left to right;
  an exception ends the sequence.\<close>

datatype call =
    Log arguments | Warn arguments | Error arguments | Ignore arguments
  | Indent arguments | Unindent | Enter arguments | Leave arguments

fun exec :: "call \<Rightarrow> state \<Rightarrow> error + state" where
  "exec (Log a) s = exports_log a s"
| "exec (Warn a) s = exports_warn a s"
| "exec (Error a) s = exports_error a s"
| "exec (Ignore a) s = exports_ignore a s"
| "exec (Indent a) s = exports_indent a s"
| "exec Unindent s = exports_unindent s"
| "exec (Enter a) s = exports_enter a s"
| "exec (Leave a) s = exports_leave a s"

fun run :: "call list \<Rightarrow> state \<Rightarrow> error + state" where
  "run [] s = Inr s"
| "run (c # cs) s = (case exec c s of Inl e \<Rightarrow> Inl e | Inr s' \<Rightarrow> run cs s')"

subsection \<open>The queue as a list\<close>

text \<open>\<open>path h p as\<close>: following \<^verbatim>\<open>next\<close> from the reference \<open>p\<close> in the object store \<open>h\<close>
  visits the addresses \<open>as\<close>, in this order, and then reaches \<^verbatim>\<open>null\<close>.\<close>

fun path :: "(addr \<Rightarrow> Message option) \<Rightarrow> addr option \<Rightarrow> addr list \<Rightarrow> bool" where
  "path h p [] = (p = None)"
| "path h p (a # as) =
     (p = Some a \<and> (case h a of None \<Rightarrow> False | Some m \<Rightarrow> path h (next m) as))"

text \<open>The content of the queue, read off a state: the messages from \<^verbatim>\<open>ctx.head\<close> along
  \<^verbatim>\<open>next\<close>, each as its text, width and type. The walk takes at most as many steps as
  objects have been created, which is the whole list in every state the package can
  reach (lemma \<open>wellformed_queue\<close>).\<close>

fun chain :: "nat \<Rightarrow> (addr \<Rightarrow> Message option) \<Rightarrow> addr option \<Rightarrow> Message list" where
  "chain 0 h p = []"
| "chain (Suc n) h None = []"
| "chain (Suc n) h (Some a) =
     (case h a of None \<Rightarrow> [] | Some m \<Rightarrow> m # chain n h (next m))"

type_synonym entry = "string \<times> int \<times> nat"

definition entry_of :: "Message \<Rightarrow> entry" where
  "entry_of m = (text m, width m, type m)"

definition queue :: "state \<Rightarrow> entry list" where
  "queue s = map entry_of (chain (fresh s) (heap s) (head s))"

subsection \<open>The invariant of the module state\<close>

text \<open>\<open>wellformed s as\<close>: the queue of \<open>s\<close> is a list without cycle over the addresses
  \<open>as\<close>, all of them created before; \<^verbatim>\<open>ctx.tail\<close> is its last element; no stored width is
  negative; and the indentation fields agree with each other. Every state the package
  can reach satisfies it for some \<open>as\<close> (lemma \<open>reachable_wf\<close>).\<close>

definition wellformed :: "state \<Rightarrow> addr list \<Rightarrow> bool" where
  "wellformed s as =
     (path (heap s) (head s) as \<and> distinct as \<and> list_all (\<lambda>a. a < fresh s) as \<and>
      tail s = (if as = [] then None else Some (last as)) \<and>
      list_all (\<lambda>a. case heap s a of None \<Rightarrow> False | Some m \<Rightarrow> 0 \<le> width m) as \<and>
      indentSize s = 2 \<and> 0 \<le> indentLevel s \<and>
      indentWidth s = indentLevel s * indentSize s)"

definition wf :: "state \<Rightarrow> bool" where
  "wf s = (\<exists>as. wellformed s as)"

subsection \<open>What \<^verbatim>\<open>show\<close> prints for a queue\<close>

text \<open>The console line of one queued message, the header line, and the lines of a whole
  queue. Lemma \<open>show_queue_wf\<close> proves that \<^verbatim>\<open>show\<close> appends exactly \<open>drain_lines (queue s)\<close>
  to the console.\<close>

definition line_of :: "entry \<Rightarrow> stream \<times> string" where
  "line_of e =
     (case e of (t, w, ty) \<Rightarrow>
        (if ty = LOG then Stdout else Stderr, indent (replicate (nat w) CHR '' '') t))"

definition header :: "stream \<times> string" where
  "header = (Stdout, replicate 80 CHR ''-'')"

definition drain_lines :: "entry list \<Rightarrow> (stream \<times> string) list" where
  "drain_lines q = (if q = [] then [] else header # map line_of q)"

subsection \<open>The wording of the specification\<close>

text \<open>The definitions of this subsection follow the specification, not the code; the
  claims compare the code with them.

  A sequence of \<^verbatim>\<open>log\<close>, \<^verbatim>\<open>warn\<close> and \<^verbatim>\<open>error\<close> calls, with changes of the indentation level
  between them (\<^verbatim>\<open>indent()\<close> without a message, \<^verbatim>\<open>unindent()\<close>) and calls of \<^verbatim>\<open>ignore\<close>, is
  \<open>plain\<close>. \<open>logged level cs\<close> is what such a sequence, started at the given level, is
  to enqueue: one message per \<^verbatim>\<open>log\<close>, \<^verbatim>\<open>warn\<close> or \<^verbatim>\<open>error\<close> call, in call order, with the
  width (level times the unit 2) at the time of the call; \<^verbatim>\<open>indent\<close> increases the level,
  \<^verbatim>\<open>unindent\<close> decreases it unless it is 0. \<open>is_log_call\<close> holds of the three enqueuing
  calls.\<close>

definition plain :: "call \<Rightarrow> bool" where
  "plain c =
     (case c of Log a \<Rightarrow> True | Warn a \<Rightarrow> True | Error a \<Rightarrow> True | Ignore a \<Rightarrow> True
      | Indent a \<Rightarrow> a = None | Unindent \<Rightarrow> True | Enter a \<Rightarrow> False | Leave a \<Rightarrow> False)"

fun logged :: "int \<Rightarrow> call list \<Rightarrow> entry list" where
  "logged level [] = []"
| "logged level (Log a # cs) = (format a, level * 2, LOG) # logged level cs"
| "logged level (Warn a # cs) = (format a, level * 2, WARN) # logged level cs"
| "logged level (Error a # cs) = (format a, level * 2, ERROR) # logged level cs"
| "logged level (Indent a # cs) = logged (level + 1) cs"
| "logged level (Unindent # cs) = logged (if level > 0 then level - 1 else level) cs"
| "logged level (c # cs) = logged level cs"

definition is_log_call :: "call \<Rightarrow> bool" where
  "is_log_call c = (case c of Log a \<Rightarrow> True | Warn a \<Rightarrow> True | Error a \<Rightarrow> True | _ \<Rightarrow> False)"

text \<open>The lines of a text: the pieces between its line breaks.\<close>

fun split_lines :: "string \<Rightarrow> string list" where
  "split_lines [] = [[]]"
| "split_lines (c # cs) =
     (if c = CHR 0x0A then [] # split_lines cs
      else (c # hd (split_lines cs)) # tl (split_lines cs))"

text \<open>The join of a scope name and a message as the specification words it: with a
  single space when both are non-empty, the name alone when only the name exists, the
  message alone when only the message exists, the empty string when neither exists.\<close>

definition spec_join :: "string \<Rightarrow> string \<Rightarrow> string" where
  "spec_join name message =
     (if name \<noteq> [] \<and> message \<noteq> [] then name @ '' '' @ message
      else if name \<noteq> [] then name
      else if message \<noteq> [] then message
      else [])"

text \<open>The first whitespace-delimited token of a message, the whole message when there
  is none.\<close>

definition is_space :: "char \<Rightarrow> bool" where
  "is_space c = (c \<in> set [CHR '' '', CHR 0x09, CHR 0x0A, CHR 0x0B, CHR 0x0C, CHR 0x0D])"

definition first_token :: "string \<Rightarrow> string" where
  "first_token message =
     (case takeWhile (\<lambda>c. \<not> is_space c) (dropWhile is_space message) of
        [] \<Rightarrow> message
      | c # cs \<Rightarrow> c # cs)"

text \<open>A sequence of calls in which every \<^verbatim>\<open>unindent\<close> is called in a state whose level is
  0 or greater than the number of saved names.\<close>

fun unindent_guarded :: "call list \<Rightarrow> state \<Rightarrow> bool" where
  "unindent_guarded [] s = True"
| "unindent_guarded (c # cs) s =
     ((c \<noteq> Unindent \<or> indentLevel s = 0 \<or> int (length (names s)) < indentLevel s) \<and>
      (case exec c s of Inl e \<Rightarrow> True | Inr s' \<Rightarrow> unindent_guarded cs s'))"

subsection \<open>The trace-log package\<close>

text \<open>The package \<^verbatim>\<open>packages/trace-log/idex.js\<close> is the same code without the message
  type: its \<^verbatim>\<open>Message\<close> has no \<^verbatim>\<open>type\<close> field, \<^verbatim>\<open>write\<close> takes the text alone, and \<^verbatim>\<open>show\<close>
  prints every message with \<^verbatim>\<open>console.log\<close>. It is modelled in the same way, with the
  names of the package followed by \<open>_tl\<close>; \<^verbatim>\<open>repeat\<close>, \<^verbatim>\<open>join2\<close> and \<^verbatim>\<open>indent\<close> are the
  same functions in both packages.\<close>

record Message_tl =
  next_tl :: "addr option"
  text_tl :: string
  width_tl :: int

definition new_Message_tl :: "string \<Rightarrow> int \<Rightarrow> Message_tl" where
  "new_Message_tl t w = \<lparr> next_tl = None, text_tl = t, width_tl = w \<rparr>"

record state_tl =
  indentSize_tl :: int
  indentLevel_tl :: int
  indentWidth_tl :: int
  head_tl :: "addr option"
  tail_tl :: "addr option"
  names_tl :: "string list"
  heap_tl :: "addr \<Rightarrow> Message_tl option"
  fresh_tl :: addr
  console_tl :: "(stream \<times> string) list"

definition init_tl :: state_tl where
  "init_tl = \<lparr> indentSize_tl = 2, indentLevel_tl = 0, indentWidth_tl = 0, head_tl = None,
               tail_tl = None, names_tl = [], heap_tl = (\<lambda>a. None), fresh_tl = 0,
               console_tl = [] \<rparr>"

definition console_log_tl :: "string \<Rightarrow> state_tl \<Rightarrow> state_tl" where
  "console_log_tl line s = s\<lparr> console_tl := console_tl s @ [(Stdout, line)] \<rparr>"

definition write_tl :: "string \<Rightarrow> state_tl \<Rightarrow> error + state_tl" where
  "write_tl t s =
     (let message = fresh_tl s;
          s1 = s\<lparr> heap_tl := (heap_tl s)(message \<mapsto> new_Message_tl t (indentWidth_tl s)),
                  fresh_tl := Suc message \<rparr>
      in case head_tl s1 of
           None \<Rightarrow> Inr (s1\<lparr> head_tl := Some message, tail_tl := Some message \<rparr>)
         | Some h \<Rightarrow>
             (case tail_tl s1 of
                None \<Rightarrow> Inl TypeError
              | Some tail_msg \<Rightarrow>
                  (case heap_tl s1 tail_msg of
                     None \<Rightarrow> Inl TypeError
                   | Some m \<Rightarrow>
                       Inr (s1\<lparr> heap_tl :=
                                  (heap_tl s1)(tail_msg \<mapsto> m\<lparr> next_tl := Some message \<rparr>),
                                tail_tl := Some message \<rparr>))))"

partial_function (option) show_loop_tl ::
  "addr \<Rightarrow> int \<Rightarrow> string \<Rightarrow> state_tl \<Rightarrow> (error + state_tl) option" where
  "show_loop_tl cur indentwidth indentation s =
     (case heap_tl s cur of
        None \<Rightarrow> Some (Inl TypeError)
      | Some m \<Rightarrow>
          (case (if width_tl m \<noteq> indentwidth
                 then (case repeat '' '' (width_tl m) of
                         Inl e \<Rightarrow> Inl e
                       | Inr r \<Rightarrow> Inr (width_tl m, r))
                 else Inr (indentwidth, indentation)) of
             Inl e \<Rightarrow> Some (Inl e)
           | Inr (indentwidth', indentation') \<Rightarrow>
               (let s' = console_log_tl (indent indentation' (text_tl m)) s
                in case next_tl m of
                     None \<Rightarrow> Some (Inr s')
                   | Some n \<Rightarrow> show_loop_tl n indentwidth' indentation' s')))"

definition show_tl :: "state_tl \<Rightarrow> (error + state_tl) option" where
  "show_tl s =
     (case head_tl s of
        None \<Rightarrow> Some (Inr s)
      | Some cur \<Rightarrow>
          (case repeat ''-'' 80 of
             Inl e \<Rightarrow> Some (Inl e)
           | Inr line \<Rightarrow> show_loop_tl cur 0 [] (console_log_tl line s)))"

definition exports_log_tl :: "arguments \<Rightarrow> state_tl \<Rightarrow> error + state_tl" where
  "exports_log_tl a s = write_tl (format a) s"

definition exports_warn_tl :: "arguments \<Rightarrow> state_tl \<Rightarrow> error + state_tl" where
  "exports_warn_tl a s = write_tl (format a) s"

definition exports_error_tl :: "arguments \<Rightarrow> state_tl \<Rightarrow> error + state_tl" where
  "exports_error_tl a s = write_tl (format a) s"

definition exports_ignore_tl :: "arguments \<Rightarrow> state_tl \<Rightarrow> error + state_tl" where
  "exports_ignore_tl a s = Inr s"

definition exports_indent_tl :: "arguments \<Rightarrow> state_tl \<Rightarrow> error + state_tl" where
  "exports_indent_tl a s =
     (case (if a \<noteq> None then exports_log_tl a s else Inr s) of
        Inl e \<Rightarrow> Inl e
      | Inr s1 \<Rightarrow>
          Inr (s1\<lparr> indentLevel_tl := indentLevel_tl s1 + 1,
                   indentWidth_tl := (indentLevel_tl s1 + 1) * indentSize_tl s1 \<rparr>))"

definition exports_unindent_tl :: "state_tl \<Rightarrow> error + state_tl" where
  "exports_unindent_tl s =
     (if indentLevel_tl s > 0
      then Inr (s\<lparr> indentLevel_tl := indentLevel_tl s - 1,
                    indentWidth_tl := (indentLevel_tl s - 1) * indentSize_tl s \<rparr>)
      else Inr s)"

definition exports_enter_tl :: "arguments \<Rightarrow> state_tl \<Rightarrow> error + state_tl" where
  "exports_enter_tl a s =
     (let message = format a;
          s1 = s\<lparr> names_tl := names_tl s @ [case match_word message of
                                               Some w \<Rightarrow> w | None \<Rightarrow> message] \<rparr>
      in case repeat '' '' (indentSize_tl s1 - 1) of
           Inl e \<Rightarrow> Inl e
         | Inr pad \<Rightarrow>
             (case write_tl (''>'' @ pad @ message) s1 of
                Inl e \<Rightarrow> Inl e
              | Inr s2 \<Rightarrow> exports_indent_tl None s2))"

definition exports_leave_tl :: "arguments \<Rightarrow> state_tl \<Rightarrow> error + state_tl" where
  "exports_leave_tl a s =
     (let message = format a;
          (name, rest) = pop (names_tl s);
          s1 = s\<lparr> names_tl := rest \<rparr>
      in case repeat '' '' (indentSize_tl s1 - 1) of
           Inl e \<Rightarrow> Inl e
         | Inr pad \<Rightarrow>
             (case exports_unindent_tl s1 of
                Inl e \<Rightarrow> Inl e
              | Inr s2 \<Rightarrow> write_tl (''<'' @ pad @ join2 name (Some message)) s2))"

datatype call_tl =
    Log_tl arguments | Warn_tl arguments | Error_tl arguments | Ignore_tl arguments
  | Indent_tl arguments | Unindent_tl | Enter_tl arguments | Leave_tl arguments

fun exec_tl :: "call_tl \<Rightarrow> state_tl \<Rightarrow> error + state_tl" where
  "exec_tl (Log_tl a) s = exports_log_tl a s"
| "exec_tl (Warn_tl a) s = exports_warn_tl a s"
| "exec_tl (Error_tl a) s = exports_error_tl a s"
| "exec_tl (Ignore_tl a) s = exports_ignore_tl a s"
| "exec_tl (Indent_tl a) s = exports_indent_tl a s"
| "exec_tl Unindent_tl s = exports_unindent_tl s"
| "exec_tl (Enter_tl a) s = exports_enter_tl a s"
| "exec_tl (Leave_tl a) s = exports_leave_tl a s"

fun run_tl :: "call_tl list \<Rightarrow> state_tl \<Rightarrow> error + state_tl" where
  "run_tl [] s = Inr s"
| "run_tl (c # cs) s = (case exec_tl c s of Inl e \<Rightarrow> Inl e | Inr s' \<Rightarrow> run_tl cs s')"

text \<open>The queue of trace-log as a list of texts with their widths, the invariant of its
  state and the lines that \<^verbatim>\<open>show\<close> prints, as for trace-console.\<close>

fun path_tl :: "(addr \<Rightarrow> Message_tl option) \<Rightarrow> addr option \<Rightarrow> addr list \<Rightarrow> bool" where
  "path_tl h p [] = (p = None)"
| "path_tl h p (a # as) =
     (p = Some a \<and> (case h a of None \<Rightarrow> False | Some m \<Rightarrow> path_tl h (next_tl m) as))"

fun chain_tl :: "nat \<Rightarrow> (addr \<Rightarrow> Message_tl option) \<Rightarrow> addr option \<Rightarrow> Message_tl list" where
  "chain_tl 0 h p = []"
| "chain_tl (Suc n) h None = []"
| "chain_tl (Suc n) h (Some a) =
     (case h a of None \<Rightarrow> [] | Some m \<Rightarrow> m # chain_tl n h (next_tl m))"

type_synonym entry_tl = "string \<times> int"

definition entry_of_tl :: "Message_tl \<Rightarrow> entry_tl" where
  "entry_of_tl m = (text_tl m, width_tl m)"

definition queue_tl :: "state_tl \<Rightarrow> entry_tl list" where
  "queue_tl s = map entry_of_tl (chain_tl (fresh_tl s) (heap_tl s) (head_tl s))"

definition wellformed_tl :: "state_tl \<Rightarrow> addr list \<Rightarrow> bool" where
  "wellformed_tl s as =
     (path_tl (heap_tl s) (head_tl s) as \<and> distinct as \<and>
      list_all (\<lambda>a. a < fresh_tl s) as \<and>
      tail_tl s = (if as = [] then None else Some (last as)) \<and>
      list_all (\<lambda>a. case heap_tl s a of None \<Rightarrow> False | Some m \<Rightarrow> 0 \<le> width_tl m) as \<and>
      indentSize_tl s = 2 \<and> 0 \<le> indentLevel_tl s \<and>
      indentWidth_tl s = indentLevel_tl s * indentSize_tl s)"

definition wf_tl :: "state_tl \<Rightarrow> bool" where
  "wf_tl s = (\<exists>as. wellformed_tl s as)"

definition line_of_tl :: "entry_tl \<Rightarrow> stream \<times> string" where
  "line_of_tl e = (case e of (t, w) \<Rightarrow> (Stdout, indent (replicate (nat w) CHR '' '') t))"

definition drain_lines_tl :: "entry_tl list \<Rightarrow> (stream \<times> string) list" where
  "drain_lines_tl q = (if q = [] then [] else header # map line_of_tl q)"

section \<open>Properties of the queue\<close>

lemma path_chain:
  "path h p as \<Longrightarrow> length as \<le> n \<Longrightarrow> chain n h p = map (\<lambda>a. the (h a)) as"
proof (induction as arbitrary: p n)
  case Nil
  then show ?case by (cases n) auto
next
  case (Cons a as)
  then obtain k where "n = Suc k" by (cases n) auto
  with Cons show ?case by (auto split: option.splits)
qed

lemma bounded_distinct_length:
  "distinct as \<Longrightarrow> list_all (\<lambda>a. a < n) as \<Longrightarrow> length as \<le> (n::nat)"
proof -
  assume d: "distinct as" and b: "list_all (\<lambda>a. a < n) as"
  from b have "set as \<subseteq> {..<n}" by (auto simp: list_all_iff)
  then have "card (set as) \<le> card {..<n}" by (intro card_mono) auto
  with d show ?thesis by (simp add: distinct_card)
qed

lemma wellformed_queue: "wellformed s as \<Longrightarrow> queue s = map (\<lambda>a. entry_of (the (heap s a))) as"
  unfolding wellformed_def queue_def
  by (subst path_chain [where as = as]) (auto intro: bounded_distinct_length)

lemma path_update_other:
  "path h p as \<Longrightarrow> a \<notin> set as \<Longrightarrow> path (h(a := v)) p as"
  by (induction as arbitrary: p) (auto split: option.splits)

lemma path_append:
  "path h p as \<Longrightarrow> as \<noteq> [] \<Longrightarrow> distinct as \<Longrightarrow> a \<notin> set as \<Longrightarrow>
   h (last as) = Some m \<Longrightarrow> h a = Some n \<Longrightarrow> next n = None \<Longrightarrow>
   path (h(last as \<mapsto> m\<lparr>next := Some a\<rparr>)) p (as @ [a])"
proof (induction as arbitrary: p)
  case Nil
  then show ?case by simp
next
  case (Cons x xs)
  show ?case
  proof (cases "xs = []")
    case True
    with Cons.prems show ?thesis by (auto split: option.splits)
  next
    case False
    with Cons.prems have "path h (next (the (h x))) xs" "x \<noteq> last xs"
      by (auto split: option.splits)
    with Cons False show ?thesis by (auto split: option.splits)
  qed
qed

lemma path_last_next:
  "path h p as \<Longrightarrow> as \<noteq> [] \<Longrightarrow> \<exists>m. h (last as) = Some m \<and> next m = None"
  by (induction as arbitrary: p) (auto split: option.splits)

lemma list_all_mono_fresh:
  "list_all (\<lambda>a. a < n) as \<Longrightarrow> list_all (\<lambda>a. a < Suc n) as"
  by (induction as) auto

lemma write_wellformed:
  assumes wf: "wellformed s as"
  shows "\<exists>s'. write t ty s = Inr s' \<and> wellformed s' (as @ [fresh s]) \<and>
           queue s' = queue s @ [(t, indentWidth s, ty)] \<and>
           indentSize s' = indentSize s \<and> indentLevel s' = indentLevel s \<and>
           indentWidth s' = indentWidth s \<and> names s' = names s \<and>
           console s' = console s"
proof (cases "as = []")
  case True
  with wf have hd: "head s = None" by (simp add: wellformed_def)
  let ?s' = "s\<lparr> heap := (heap s)(fresh s \<mapsto> new_Message t (indentWidth s) ty),
                  fresh := Suc (fresh s), head := Some (fresh s), tail := Some (fresh s) \<rparr>"
  have w: "write t ty s = Inr ?s'" using hd by (simp add: write_def Let_def)
  have wf': "wellformed ?s' (as @ [fresh s])"
    using wf True by (simp add: wellformed_def new_Message_def)
  have "queue ?s' = queue s @ [(t, indentWidth s, ty)]"
    unfolding wellformed_queue [OF wf'] wellformed_queue [OF wf]
    using True by (simp add: entry_of_def new_Message_def)
  with w wf' show ?thesis by simp
next
  case False
  from wf have p: "path (heap s) (head s) as" and d: "distinct as"
    and b: "list_all (\<lambda>a. a < fresh s) as" and tl: "tail s = Some (last as)"
    using False by (simp_all add: wellformed_def)
  from p False obtain h where hd: "head s = Some h" by (cases as) auto
  from path_last_next [OF p False] obtain m where
    m: "heap s (last as) = Some m" "next m = None" by blast
  from b have nf: "fresh s \<notin> set as" by (auto simp: list_all_iff)
  then have ne: "last as \<noteq> fresh s" using False last_in_set by metis
  let ?h1 = "(heap s)(fresh s \<mapsto> new_Message t (indentWidth s) ty)"
  let ?s' = "s\<lparr> heap := ?h1(last as \<mapsto> m\<lparr>next := Some (fresh s)\<rparr>),
                  fresh := Suc (fresh s), tail := Some (fresh s) \<rparr>"
  have w: "write t ty s = Inr ?s'"
    using hd tl m ne by (simp add: write_def Let_def)
  have p1: "path ?h1 (head s) as" using p nf by (rule path_update_other)
  have p2: "path (?h1(last as \<mapsto> m\<lparr>next := Some (fresh s)\<rparr>)) (head s) (as @ [fresh s])"
  proof (rule path_append [OF p1 False d nf])
    show "?h1 (last as) = Some m" using m ne by simp
    show "?h1 (fresh s) = Some (new_Message t (indentWidth s) ty)" by simp
    show "next (new_Message t (indentWidth s) ty) = None" by (simp add: new_Message_def)
  qed
  have widths: "list_all (\<lambda>a. case heap s a of None \<Rightarrow> False | Some m \<Rightarrow> 0 \<le> width m) as"
    using wf by (simp add: wellformed_def)
  have widths': "list_all (\<lambda>a. case (?h1(last as \<mapsto> m\<lparr>next := Some (fresh s)\<rparr>)) a of
                     None \<Rightarrow> False | Some m \<Rightarrow> 0 \<le> width m) as"
    using widths m nf by (auto simp: list_all_iff split: option.splits)
  have wf': "wellformed ?s' (as @ [fresh s])"
    using wf p2 d nf b widths' False ne
    by (simp add: wellformed_def new_Message_def list_all_mono_fresh)
  have "map (\<lambda>a. entry_of (the ((?h1(last as \<mapsto> m\<lparr>next := Some (fresh s)\<rparr>)) a))) as
        = map (\<lambda>a. entry_of (the (heap s a))) as"
    using m nf by (auto simp: entry_of_def)
  then have "queue ?s' = queue s @ [(t, indentWidth s, ty)]"
    unfolding wellformed_queue [OF wf'] wellformed_queue [OF wf]
    using ne by (simp add: entry_of_def new_Message_def)
  with w wf' show ?thesis by simp
qed

lemma repeat_char:
  "0 \<le> w \<Longrightarrow> repeat [c] w = Inr (replicate (nat w) c)"
proof -
  assume "0 \<le> w"
  then have "nat (w + 1) - 1 = nat w" by simp
  moreover have "concat (replicate n [c]) = replicate n c" for n
    by (induction n) simp_all
  ultimately show ?thesis using \<open>0 \<le> w\<close> by (simp add: repeat_def)
qed

lemma print_line:
  "(if type m = LOG then console_log (indent i (text m)) s
    else if type m = WARN then console_warn (indent i (text m)) s
    else console_error (indent i (text m)) s)
   = s\<lparr> console := console s @
          [(if type m = LOG then Stdout else Stderr, indent i (text m))] \<rparr>"
  by (simp add: console_log_def console_warn_def console_error_def)

lemma show_loop_path:
  "path (heap s) (Some a) (a # as) \<Longrightarrow>
   list_all (\<lambda>a. case heap s a of None \<Rightarrow> False | Some m \<Rightarrow> 0 \<le> width m) (a # as) \<Longrightarrow>
   0 \<le> iw \<Longrightarrow> ind = replicate (nat iw) CHR '' '' \<Longrightarrow>
   show_loop a iw ind s =
     Some (Inr (s\<lparr> console := console s @
                    map (\<lambda>a. line_of (entry_of (the (heap s a)))) (a # as) \<rparr>))"
proof (induction as arbitrary: a iw ind s)
  case Nil
  then obtain m where m: "heap s a = Some m" "next m = None" "0 \<le> width m"
    by (auto split: option.splits)
  have step: "(if width m \<noteq> iw
         then (case repeat '' '' (width m) of Inl e \<Rightarrow> Inl e | Inr r \<Rightarrow> Inr (width m, r))
         else Inr (iw, ind)) = Inr (width m, replicate (nat (width m)) CHR '' '')"
    using m Nil.prems by (simp add: repeat_char)
  show ?case
    by (subst show_loop.simps)
       (simp add: m step print_line line_of_def entry_of_def Let_def)
next
  case (Cons b bs)
  then obtain m where m: "heap s a = Some m" "next m = Some b" "0 \<le> width m"
    and p: "path (heap s) (Some b) (b # bs)"
    and w: "list_all (\<lambda>a. case heap s a of None \<Rightarrow> False | Some m \<Rightarrow> 0 \<le> width m) (b # bs)"
    by (auto split: option.splits)
  have step: "(if width m \<noteq> iw
         then (case repeat '' '' (width m) of Inl e \<Rightarrow> Inl e | Inr r \<Rightarrow> Inr (width m, r))
         else Inr (iw, ind)) = Inr (width m, replicate (nat (width m)) CHR '' '')"
    using m Cons.prems by (simp add: repeat_char)
  let ?s' = "s\<lparr> console := console s @
          [(if type m = LOG then Stdout else Stderr,
            indent (replicate (nat (width m)) CHR '' '') (text m))] \<rparr>"
  have IH: "show_loop b (width m) (replicate (nat (width m)) CHR '' '') ?s' =
     Some (Inr (?s'\<lparr> console := console ?s' @
                    map (\<lambda>a. line_of (entry_of (the (heap ?s' a)))) (b # bs) \<rparr>))"
    by (rule Cons.IH) (use p w m in simp_all)
  show ?case
    by (subst show_loop.simps)
       (simp add: m step print_line IH line_of_def entry_of_def Let_def)
qed

lemma show_queue_wellformed:
  assumes wf: "wellformed s as"
  shows "show_queue s = Some (Inr (s\<lparr> console := console s @ drain_lines (queue s) \<rparr>))"
proof (cases as)
  case Nil
  with wf have "head s = None" by (simp add: wellformed_def)
  then show ?thesis
    unfolding wellformed_queue [OF wf] using Nil by (simp add: show_queue_def drain_lines_def)
next
  case (Cons a bs)
  with wf have hd: "head s = Some a" and p: "path (heap s) (Some a) (a # bs)"
    and w: "list_all (\<lambda>a. case heap s a of None \<Rightarrow> False | Some m \<Rightarrow> 0 \<le> width m) (a # bs)"
    by (simp_all add: wellformed_def)
  have r: "repeat ''-'' 80 = Inr (replicate 80 CHR ''-'')"
    using repeat_char [of 80 "CHR ''-''"] by simp
  let ?s' = "console_log (replicate 80 CHR ''-'') s"
  have "show_loop a 0 [] ?s' =
     Some (Inr (?s'\<lparr> console := console ?s' @
                    map (\<lambda>a. line_of (entry_of (the (heap ?s' a)))) (a # bs) \<rparr>))"
    by (rule show_loop_path) (use p w in \<open>simp_all add: console_log_def\<close>)
  then show ?thesis
    unfolding wellformed_queue [OF wf] using Cons hd r
    by (simp add: show_queue_def drain_lines_def header_def console_log_def)
qed

lemma init_wf: "wf init"
  by (simp add: wf_def wellformed_def init_def exI [of _ "[]"])

lemma write_wf:
  assumes "wf s"
  shows "\<exists>s'. write t ty s = Inr s' \<and> wf s' \<and>
           queue s' = queue s @ [(t, indentWidth s, ty)] \<and>
           indentSize s' = indentSize s \<and> indentLevel s' = indentLevel s \<and>
           indentWidth s' = indentWidth s \<and> names s' = names s \<and>
           console s' = console s"
proof -
  from assms obtain as where "wellformed s as" by (auto simp: wf_def)
  from write_wellformed [OF this, of t ty] show ?thesis
    unfolding wf_def by blast
qed

lemma wf_level: "wf s \<Longrightarrow> indentSize s = 2 \<and> 0 \<le> indentLevel s \<and> indentWidth s = indentLevel s * 2"
  by (auto simp: wf_def wellformed_def)

lemma names_update_wf: "wf s \<Longrightarrow> wf (s\<lparr>names := ns\<rparr>)"
  by (auto simp: wf_def wellformed_def)

lemma names_update_queue: "queue (s\<lparr>names := ns\<rparr>) = queue s"
  by (simp add: queue_def)

lemma exports_unindent_wf:
  assumes "wf s"
  shows "\<exists>s'. exports_unindent s = Inr s' \<and> wf s' \<and> queue s' = queue s \<and>
           names s' = names s \<and> console s' = console s \<and> indentSize s' = indentSize s \<and>
           indentLevel s' = (if 0 < indentLevel s then indentLevel s - 1 else indentLevel s) \<and>
           indentWidth s' = indentLevel s' * 2"
proof -
  from assms obtain as where w: "wellformed s as" by (auto simp: wf_def)
  show ?thesis
  proof (cases "0 < indentLevel s")
    case True
    let ?s' = "s\<lparr> indentLevel := indentLevel s - 1,
                    indentWidth := (indentLevel s - 1) * indentSize s \<rparr>"
    have "wellformed ?s' as" using w True by (simp add: wellformed_def)
    then have "wf ?s'" by (auto simp: wf_def)
    moreover have "queue ?s' = queue s" by (simp add: queue_def)
    ultimately show ?thesis using True w
      by (simp add: exports_unindent_def wellformed_def)
  next
    case False
    then show ?thesis using assms wf_level [OF assms]
      by (simp add: exports_unindent_def)
  qed
qed

lemma increase_wf:
  assumes "wf s"
  shows "wf (s\<lparr> indentLevel := indentLevel s + 1,
                 indentWidth := (indentLevel s + 1) * indentSize s \<rparr>)"
proof -
  from assms obtain as where w: "wellformed s as" by (auto simp: wf_def)
  then have "wellformed (s\<lparr> indentLevel := indentLevel s + 1,
                 indentWidth := (indentLevel s + 1) * indentSize s \<rparr>) as"
    by (simp add: wellformed_def)
  then show ?thesis by (auto simp: wf_def)
qed

lemma exports_indent_wf:
  assumes "wf s"
  shows "\<exists>s'. exports_indent a s = Inr s' \<and> wf s' \<and>
           queue s' = queue s @ (case a of None \<Rightarrow> [] | Some m \<Rightarrow> [(m, indentWidth s, LOG)]) \<and>
           names s' = names s \<and> console s' = console s \<and> indentSize s' = indentSize s \<and>
           indentLevel s' = indentLevel s + 1 \<and> indentWidth s' = indentLevel s' * 2"
proof (cases a)
  case None
  with increase_wf [OF assms] wf_level [OF assms] show ?thesis
    by (simp add: exports_indent_def queue_def)
next
  case (Some m)
  from write_wf [OF assms, of m LOG] obtain s1 where
    s1: "write m LOG s = Inr s1" "wf s1" "queue s1 = queue s @ [(m, indentWidth s, LOG)]"
      "indentSize s1 = indentSize s" "indentLevel s1 = indentLevel s"
      "names s1 = names s" "console s1 = console s"
    by blast
  from increase_wf [OF s1(2)] wf_level [OF assms] s1 Some show ?thesis
    by (simp add: exports_indent_def exports_log_def format_def queue_def)
qed

lemma exports_enter_wf:
  assumes "wf s"
  shows "\<exists>s'. exports_enter a s = Inr s' \<and> wf s' \<and>
           queue s' = queue s @ [(''> '' @ format a, indentWidth s, LOG)] \<and>
           names s' = names s @ [case match_word (format a) of Some w \<Rightarrow> w | None \<Rightarrow> format a] \<and>
           console s' = console s \<and> indentSize s' = indentSize s \<and>
           indentLevel s' = indentLevel s + 1 \<and> indentWidth s' = indentLevel s' * 2"
proof -
  let ?n = "case match_word (format a) of Some w \<Rightarrow> w | None \<Rightarrow> format a"
  let ?s1 = "s\<lparr> names := names s @ [?n] \<rparr>"
  have w1: "wf ?s1" using assms by (rule names_update_wf)
  from write_wf [OF w1, of "''> '' @ format a" LOG] obtain s2 where
    s2: "write (''> '' @ format a) LOG ?s1 = Inr s2" "wf s2"
      "queue s2 = queue ?s1 @ [(''> '' @ format a, indentWidth ?s1, LOG)]"
      "indentSize s2 = indentSize ?s1" "indentLevel s2 = indentLevel ?s1"
      "names s2 = names ?s1" "console s2 = console ?s1"
    by blast
  from exports_indent_wf [OF s2(2), of None] obtain s3 where
    s3: "exports_indent None s2 = Inr s3" "wf s3" "queue s3 = queue s2"
      "names s3 = names s2" "console s3 = console s2" "indentSize s3 = indentSize s2"
      "indentLevel s3 = indentLevel s2 + 1" "indentWidth s3 = indentLevel s3 * 2"
    by auto
  have "exports_enter a s = Inr s3"
    using s2(1) s3(1) wf_level [OF assms] by (simp add: exports_enter_def Let_def repeat_def)
  with s2 s3 show ?thesis by (simp add: names_update_queue)
qed

lemma exports_leave_wf:
  assumes "wf s"
  shows "\<exists>s'. exports_leave a s = Inr s' \<and> wf s' \<and>
           queue s' = queue s @
             [(''< '' @ join2 (fst (pop (names s))) (Some (format a)), indentWidth s', LOG)] \<and>
           names s' = snd (pop (names s)) \<and>
           console s' = console s \<and> indentSize s' = indentSize s \<and>
           indentLevel s' = (if 0 < indentLevel s then indentLevel s - 1 else indentLevel s) \<and>
           indentWidth s' = indentLevel s' * 2"
proof -
  let ?s1 = "s\<lparr> names := snd (pop (names s)) \<rparr>"
  let ?t = "''< '' @ join2 (fst (pop (names s))) (Some (format a))"
  have w1: "wf ?s1" using assms by (rule names_update_wf)
  from exports_unindent_wf [OF w1] obtain s2 where
    s2: "exports_unindent ?s1 = Inr s2" "wf s2" "queue s2 = queue ?s1"
      "names s2 = names ?s1" "console s2 = console ?s1" "indentSize s2 = indentSize ?s1"
      "indentLevel s2 = (if 0 < indentLevel ?s1 then indentLevel ?s1 - 1 else indentLevel ?s1)"
      "indentWidth s2 = indentLevel s2 * 2"
    by blast
  from write_wf [OF s2(2), of ?t LOG] obtain s3 where
    s3: "write ?t LOG s2 = Inr s3" "wf s3"
      "queue s3 = queue s2 @ [(?t, indentWidth s2, LOG)]"
      "indentSize s3 = indentSize s2" "indentLevel s3 = indentLevel s2"
      "indentWidth s3 = indentWidth s2" "names s3 = names s2" "console s3 = console s2"
    by blast
  have "exports_leave a s = Inr s3"
    using s2(1) s3(1) wf_level [OF assms]
    by (simp add: exports_leave_def Let_def repeat_def split_beta)
  with s2 s3 show ?thesis by (simp add: names_update_queue)
qed

lemma exec_wf: "wf s \<Longrightarrow> \<exists>s'. exec c s = Inr s' \<and> wf s' \<and> console s' = console s"
proof (cases c)
  case (Log a)
  assume "wf s"
  from write_wf [OF this] Log show ?thesis by (simp add: exports_log_def) blast
next
  case (Warn a)
  assume "wf s"
  from write_wf [OF this] Warn show ?thesis by (simp add: exports_warn_def) blast
next
  case (Error a)
  assume "wf s"
  from write_wf [OF this] Error show ?thesis by (simp add: exports_error_def) blast
next
  case (Ignore a)
  assume "wf s"
  with Ignore show ?thesis by (simp add: exports_ignore_def)
next
  case (Indent a)
  assume "wf s"
  from exports_indent_wf [OF this, of a] Indent show ?thesis by auto
next
  case Unindent
  assume "wf s"
  from exports_unindent_wf [OF this] Unindent show ?thesis by auto
next
  case (Enter a)
  assume "wf s"
  from exports_enter_wf [OF this, of a] Enter show ?thesis by auto
next
  case (Leave a)
  assume "wf s"
  from exports_leave_wf [OF this, of a] Leave show ?thesis by auto
qed

lemma run_wf: "wf s \<Longrightarrow> \<exists>s'. run cs s = Inr s' \<and> wf s' \<and> console s' = console s"
proof (induction cs arbitrary: s)
  case Nil
  then show ?case by simp
next
  case (Cons c cs)
  from exec_wf [OF Cons.prems, of c] obtain s1 where
    "exec c s = Inr s1" "wf s1" "console s1 = console s" by blast
  with Cons.IH [of s1] show ?case by simp
qed

lemma reachable_wf: "run cs init = Inr s \<Longrightarrow> wf s"
  using run_wf [OF init_wf, of cs] by auto

lemma reachable_console: "run cs init = Inr s \<Longrightarrow> console s = []"
  using run_wf [OF init_wf, of cs] by (auto simp: init_def)

lemma show_queue_wf:
  "wf s \<Longrightarrow> show_queue s = Some (Inr (s\<lparr> console := console s @ drain_lines (queue s) \<rparr>))"
  by (auto simp: wf_def dest: show_queue_wellformed)

lemma logged_length: "length (logged level cs) = length (filter is_log_call cs)"
  by (induction level cs rule: logged.induct) (simp_all add: is_log_call_def)

lemma run_plain:
  "wf s \<Longrightarrow> list_all plain cs \<Longrightarrow>
   \<exists>s'. run cs s = Inr s' \<and> wf s' \<and> queue s' = queue s @ logged (indentLevel s) cs"
proof (induction cs arbitrary: s)
  case Nil
  then show ?case by simp
next
  case (Cons c cs)
  note w = wf_level [OF Cons.prems(1)]
  from Cons.prems have pl: "list_all plain cs" by simp
  show ?case
  proof (cases c)
    case (Log a)
    from write_wf [OF Cons.prems(1), of "format a" LOG] obtain s1 where
      s1: "exec c s = Inr s1" "wf s1" "queue s1 = queue s @ [(format a, indentWidth s, LOG)]"
        "indentLevel s1 = indentLevel s"
      using Log by (auto simp: exports_log_def)
    from Cons.IH [OF s1(2) pl] s1 w Log show ?thesis by auto
  next
    case (Warn a)
    from write_wf [OF Cons.prems(1), of "format a" WARN] obtain s1 where
      s1: "exec c s = Inr s1" "wf s1" "queue s1 = queue s @ [(format a, indentWidth s, WARN)]"
        "indentLevel s1 = indentLevel s"
      using Warn by (auto simp: exports_warn_def)
    from Cons.IH [OF s1(2) pl] s1 w Warn show ?thesis by auto
  next
    case (Error a)
    from write_wf [OF Cons.prems(1), of "format a" ERROR] obtain s1 where
      s1: "exec c s = Inr s1" "wf s1" "queue s1 = queue s @ [(format a, indentWidth s, ERROR)]"
        "indentLevel s1 = indentLevel s"
      using Error by (auto simp: exports_error_def)
    from Cons.IH [OF s1(2) pl] s1 w Error show ?thesis by auto
  next
    case (Ignore a)
    from Cons.IH [OF Cons.prems(1) pl] Ignore show ?thesis by (simp add: exports_ignore_def)
  next
    case (Indent a)
    with Cons.prems have a: "a = None" by (simp add: plain_def)
    from exports_indent_wf [OF Cons.prems(1), of None] obtain s1 where
      s1: "exec c s = Inr s1" "wf s1" "queue s1 = queue s" "indentLevel s1 = indentLevel s + 1"
      using Indent a by auto
    from Cons.IH [OF s1(2) pl] s1 Indent show ?thesis by auto
  next
    case Unindent
    from exports_unindent_wf [OF Cons.prems(1)] obtain s1 where
      s1: "exec c s = Inr s1" "wf s1" "queue s1 = queue s"
        "indentLevel s1 = (if 0 < indentLevel s then indentLevel s - 1 else indentLevel s)"
      using Unindent by auto
    from Cons.IH [OF s1(2) pl] s1 Unindent show ?thesis by auto
  next
    case (Enter a)
    with Cons.prems show ?thesis by (simp add: plain_def)
  next
    case (Leave a)
    with Cons.prems show ?thesis by (simp add: plain_def)
  qed
qed

lemma logged_widths: "0 \<le> level \<Longrightarrow> list_all (\<lambda>(t, w, ty). 0 \<le> w) (logged level cs)"
  by (induction level cs rule: logged.induct) simp_all

lemma indent_prefix: "\<exists>rest. indent i t = i @ rest"
  by (simp add: indent_def)

lemma line_of_prefix: "\<exists>rest. snd (line_of (t, w, ty)) = replicate (nat w) CHR '' '' @ rest"
  by (simp add: line_of_def indent_prefix)

lemma split_lines_nonempty: "split_lines t \<noteq> []"
  by (induction t) simp_all

lemma split_lines_prepend:
  "CHR 0x0A \<notin> set i \<Longrightarrow>
   split_lines (i @ t) = (i @ hd (split_lines t)) # tl (split_lines t)"
  using split_lines_nonempty [of t] by (induction i) (auto simp: neq_Nil_conv)

lemma replace_newlines_none:
  "CHR 0x0A \<notin> set t \<Longrightarrow> replace_newlines i t = t"
  by (induction t) (auto simp: replace_newlines_def)

lemma replace_newlines_Cons:
  "replace_newlines i (c # t) =
     (if c = CHR 0x0A then CHR 0x0A # i @ replace_newlines i t else c # replace_newlines i t)"
  by (simp add: replace_newlines_def)

lemma split_lines_replace:
  "CHR 0x0A \<notin> set i \<Longrightarrow>
   split_lines (i @ replace_newlines i t) = map (\<lambda>l. i @ l) (split_lines t)"
proof (induction t)
  case Nil
  from split_lines_prepend [OF Nil, of "[]"] show ?case by (simp add: replace_newlines_def)
next
  case (Cons c t)
  from Cons have IH: "split_lines (i @ replace_newlines i t) = map (\<lambda>l. i @ l) (split_lines t)"
    by simp
  show ?case
  proof (cases "c = CHR 0x0A")
    case True
    then have "split_lines (i @ replace_newlines i (c # t)) =
        (i @ []) # split_lines (i @ replace_newlines i t)"
      using split_lines_prepend [OF Cons.prems, of "CHR 0x0A # i @ replace_newlines i t"]
      by (simp add: replace_newlines_Cons)
    with IH True show ?thesis by simp
  next
    case False
    then have "split_lines (i @ replace_newlines i (c # t)) =
        (i @ c # hd (split_lines (replace_newlines i t))) # tl (split_lines (replace_newlines i t))"
      using split_lines_prepend [OF Cons.prems, of "c # replace_newlines i t"]
      by (simp add: replace_newlines_Cons)
    moreover from IH split_lines_prepend [OF Cons.prems, of "replace_newlines i t"]
    have "(i @ hd (split_lines (replace_newlines i t))) # tl (split_lines (replace_newlines i t))
        = map (\<lambda>l. i @ l) (split_lines t)" by simp
    ultimately show ?thesis
      using False split_lines_nonempty [of t] by (auto simp: neq_Nil_conv)
  qed
qed

lemma split_lines_indent:
  "CHR 0x0A \<notin> set i \<Longrightarrow> split_lines (indent i t) = map (\<lambda>l. i @ l) (split_lines t)"
  using split_lines_replace [of i t] replace_newlines_none [of t i]
  by (auto simp: indent_def)

lemma wf_queue_widths: "wf s \<Longrightarrow> list_all (\<lambda>(t, w, ty). 0 \<le> w) (queue s)"
proof -
  assume "wf s"
  then obtain as where w: "wellformed s as" by (auto simp: wf_def)
  then have "list_all (\<lambda>a. case heap s a of None \<Rightarrow> False | Some m \<Rightarrow> 0 \<le> width m) as"
    by (simp add: wellformed_def)
  then show ?thesis
    unfolding wellformed_queue [OF w]
    by (auto simp: list_all_iff entry_of_def split: option.splits)
qed

lemma wf_console_update: "wf s \<Longrightarrow> wf (s\<lparr>console := c\<rparr>)"
  by (auto simp: wf_def wellformed_def)

lemma queue_console_update: "queue (s\<lparr>console := c\<rparr>) = queue s"
  by (simp add: queue_def)

lemma reachable_show:
  "run cs init = Inr s \<Longrightarrow>
   show_queue s = Some (Inr (s\<lparr> console := drain_lines (queue s) \<rparr>))"
  using show_queue_wf [OF reachable_wf, of cs s] reachable_console [of cs s] by simp

lemma join2_spec:
  "join2 (fst (pop ns)) (Some m) = spec_join (if ns = [] then [] else last ns) m"
  by (simp add: join2_def pop_def spec_join_def truthy_def)

lemma pop_snd: "snd (pop ns) = butlast ns"
  by (simp add: pop_def)

lemma reachable_level:
  "run cs init = Inr s \<Longrightarrow> indentSize s = 2 \<and> 0 \<le> indentLevel s \<and> indentWidth s = indentLevel s * 2"
  by (rule wf_level [OF reachable_wf])

lemmas call_defs =
  exports_log_def exports_warn_def exports_error_def exports_ignore_def exports_indent_def
  exports_unindent_def exports_enter_def exports_leave_def write_def repeat_def
  match_word_def is_word_char_def join2_def truthy_def pop_def init_def format_def
  new_Message_def Let_def queue_def entry_of_def

lemma match_word_None: "match_word m = None \<longleftrightarrow> \<not> list_ex is_word_char m"
proof -
  have "match_word m = None \<longleftrightarrow> dropWhile (\<lambda>c. \<not> is_word_char c) m = []"
    unfolding match_word_def by (simp split: list.split del: dropWhile_eq_Nil_conv)
  also have "\<dots> \<longleftrightarrow> (\<forall>c\<in>set m. \<not> is_word_char c)"
    by (simp only: dropWhile_eq_Nil_conv)
  also have "\<dots> \<longleftrightarrow> \<not> list_ex is_word_char m"
    by (simp add: list_ex_iff)
  finally show ?thesis .
qed

lemma match_word_Some:
  assumes "match_word m = Some w"
  shows "\<exists>pre post. m = pre @ w @ post \<and> list_all (\<lambda>c. \<not> is_word_char c) pre \<and>
           w \<noteq> [] \<and> list_all is_word_char w \<and> (post = [] \<or> \<not> is_word_char (hd post))"
proof -
  let ?pre = "takeWhile (\<lambda>c. \<not> is_word_char c) m"
  let ?rest = "dropWhile (\<lambda>c. \<not> is_word_char c) m"
  let ?post = "dropWhile is_word_char ?rest"
  from assms have ne: "?rest \<noteq> []" and w: "w = takeWhile is_word_char ?rest"
    unfolding match_word_def by (simp_all split: list.splits del: dropWhile_eq_Nil_conv)
  from ne have "is_word_char (hd ?rest)" using hd_dropWhile [of "\<lambda>c. \<not> is_word_char c" m] by simp
  with ne have "w \<noteq> []" unfolding w by (cases ?rest) auto
  moreover have "m = ?pre @ w @ ?post" unfolding w by simp
  moreover have "list_all (\<lambda>c. \<not> is_word_char c) ?pre"
    by (auto simp: list_all_iff dest: set_takeWhileD)
  moreover have "list_all is_word_char w"
    unfolding w by (auto simp: list_all_iff dest: set_takeWhileD)
  moreover have "?post = [] \<or> \<not> is_word_char (hd ?post)"
    using hd_dropWhile [of is_word_char ?rest] by blast
  ultimately show ?thesis by blast
qed

lemma exec_names_level:
  assumes w: "wf s" and c: "c \<noteq> Unindent" and le: "int (length (names s)) \<le> indentLevel s"
  shows "\<exists>s'. exec c s = Inr s' \<and> wf s' \<and> int (length (names s')) \<le> indentLevel s'"
proof (cases c)
  case (Log a)
  from write_wf [OF w, of "format a" LOG] Log le show ?thesis
    by (auto simp: exports_log_def)
next
  case (Warn a)
  from write_wf [OF w, of "format a" WARN] Warn le show ?thesis
    by (auto simp: exports_warn_def)
next
  case (Error a)
  from write_wf [OF w, of "format a" ERROR] Error le show ?thesis
    by (auto simp: exports_error_def)
next
  case (Ignore a)
  with w le show ?thesis by (simp add: exports_ignore_def)
next
  case (Indent a)
  from exports_indent_wf [OF w, of a] Indent le show ?thesis by auto
next
  case Unindent
  with c show ?thesis by simp
next
  case (Enter a)
  from exports_enter_wf [OF w, of a] Enter le show ?thesis by auto
next
  case (Leave a)
  from exports_leave_wf [OF w, of a] obtain s' where
    s': "exports_leave a s = Inr s'" "wf s'" "names s' = snd (pop (names s))"
    "indentLevel s' = (if 0 < indentLevel s then indentLevel s - 1 else indentLevel s)"
    by blast
  from le have "int (length (butlast (names s))) \<le>
      (if 0 < indentLevel s then indentLevel s - 1 else indentLevel s)"
    by (cases "names s" rule: rev_cases) auto
  with s' Leave show ?thesis by (simp add: pop_snd)
qed

lemma exec_queue_types:
  assumes w: "wf s"
  shows "\<exists>s' ext. exec c s = Inr s' \<and> wf s' \<and> queue s' = queue s @ ext \<and>
           list_all (\<lambda>(t, w, ty). ty = LOG \<or> ty = WARN \<or> ty = ERROR) ext"
proof (cases c)
  case (Log a)
  from write_wf [OF w, of "format a" LOG] Log show ?thesis
    by (auto simp: exports_log_def)
next
  case (Warn a)
  from write_wf [OF w, of "format a" WARN] Warn show ?thesis
    by (auto simp: exports_warn_def)
next
  case (Error a)
  from write_wf [OF w, of "format a" ERROR] Error show ?thesis
    by (auto simp: exports_error_def)
next
  case (Ignore a)
  with w show ?thesis by (simp add: exports_ignore_def)
next
  case (Indent a)
  from exports_indent_wf [OF w, of a] Indent show ?thesis
    by (cases a) auto
next
  case Unindent
  from exports_unindent_wf [OF w] Unindent show ?thesis by auto
next
  case (Enter a)
  from exports_enter_wf [OF w, of a] Enter show ?thesis by auto
next
  case (Leave a)
  from exports_leave_wf [OF w, of a] Leave show ?thesis by auto
qed

lemma run_queue_types:
  "wf s \<Longrightarrow> list_all (\<lambda>(t, w, ty). ty = LOG \<or> ty = WARN \<or> ty = ERROR) (queue s) \<Longrightarrow>
   run cs s = Inr s' \<Longrightarrow>
   list_all (\<lambda>(t, w, ty). ty = LOG \<or> ty = WARN \<or> ty = ERROR) (queue s')"
proof (induction cs arbitrary: s)
  case Nil
  then show ?case by simp
next
  case (Cons c cs)
  from exec_queue_types [OF Cons.prems(1), of c] obtain s1 ext where
    s1: "exec c s = Inr s1" "wf s1" "queue s1 = queue s @ ext"
      "list_all (\<lambda>(t, w, ty). ty = LOG \<or> ty = WARN \<or> ty = ERROR) ext"
    by blast
  with Cons.prems have "run cs s1 = Inr s'"
    "list_all (\<lambda>(t, w, ty). ty = LOG \<or> ty = WARN \<or> ty = ERROR) (queue s1)"
    by simp_all
  with Cons.IH [OF s1(2)] show ?case by blast
qed

lemma reachable_queue_types:
  "run cs init = Inr s \<Longrightarrow>
   list_all (\<lambda>(t, w, ty). ty = LOG \<or> ty = WARN \<or> ty = ERROR) (queue s)"
  by (rule run_queue_types [OF init_wf]) (simp_all add: queue_def init_def)

lemma path_chain_tl:
  "path_tl h p as \<Longrightarrow> length as \<le> n \<Longrightarrow> chain_tl n h p = map (\<lambda>a. the (h a)) as"
proof (induction as arbitrary: p n)
  case Nil
  then show ?case by (cases n) auto
next
  case (Cons a as)
  then obtain k where "n = Suc k" by (cases n) auto
  with Cons show ?case by (auto split: option.splits)
qed

lemma wellformed_queue_tl: "wellformed_tl s as \<Longrightarrow> queue_tl s = map (\<lambda>a. entry_of_tl (the (heap_tl s a))) as"
  unfolding wellformed_tl_def queue_tl_def
  by (subst path_chain_tl [where as = as]) (auto intro: bounded_distinct_length)

lemma path_update_other_tl:
  "path_tl h p as \<Longrightarrow> a \<notin> set as \<Longrightarrow> path_tl (h(a := v)) p as"
  by (induction as arbitrary: p) (auto split: option.splits)

lemma path_append_tl:
  "path_tl h p as \<Longrightarrow> as \<noteq> [] \<Longrightarrow> distinct as \<Longrightarrow> a \<notin> set as \<Longrightarrow>
   h (last as) = Some m \<Longrightarrow> h a = Some n \<Longrightarrow> next_tl n = None \<Longrightarrow>
   path_tl (h(last as \<mapsto> m\<lparr>next_tl := Some a\<rparr>)) p (as @ [a])"
proof (induction as arbitrary: p)
  case Nil
  then show ?case by simp
next
  case (Cons x xs)
  show ?case
  proof (cases "xs = []")
    case True
    with Cons.prems show ?thesis by (auto split: option.splits)
  next
    case False
    with Cons.prems have "path_tl h (next_tl (the (h x))) xs" "x \<noteq> last xs"
      by (auto split: option.splits)
    with Cons False show ?thesis by (auto split: option.splits)
  qed
qed

lemma path_last_next_tl:
  "path_tl h p as \<Longrightarrow> as \<noteq> [] \<Longrightarrow> \<exists>m. h (last as) = Some m \<and> next_tl m = None"
  by (induction as arbitrary: p) (auto split: option.splits)

lemma write_wellformed_tl:
  assumes wf_tl: "wellformed_tl s as"
  shows "\<exists>s'. write_tl t s = Inr s' \<and> wellformed_tl s' (as @ [fresh_tl s]) \<and>
           queue_tl s' = queue_tl s @ [(t, indentWidth_tl s)] \<and>
           indentSize_tl s' = indentSize_tl s \<and> indentLevel_tl s' = indentLevel_tl s \<and>
           indentWidth_tl s' = indentWidth_tl s \<and> names_tl s' = names_tl s \<and>
           console_tl s' = console_tl s"
proof (cases "as = []")
  case True
  with wf_tl have hd: "head_tl s = None" by (simp add: wellformed_tl_def)
  let ?s' = "s\<lparr> heap_tl := (heap_tl s)(fresh_tl s \<mapsto> new_Message_tl t (indentWidth_tl s)),
                  fresh_tl := Suc (fresh_tl s), head_tl := Some (fresh_tl s), tail_tl := Some (fresh_tl s) \<rparr>"
  have w: "write_tl t s = Inr ?s'" using hd by (simp add: write_tl_def Let_def)
  have wf_tl': "wellformed_tl ?s' (as @ [fresh_tl s])"
    using wf_tl True by (simp add: wellformed_tl_def new_Message_tl_def)
  have "queue_tl ?s' = queue_tl s @ [(t, indentWidth_tl s)]"
    unfolding wellformed_queue_tl [OF wf_tl'] wellformed_queue_tl [OF wf_tl]
    using True by (simp add: entry_of_tl_def new_Message_tl_def)
  with w wf_tl' show ?thesis by simp
next
  case False
  from wf_tl have p: "path_tl (heap_tl s) (head_tl s) as" and d: "distinct as"
    and b: "list_all (\<lambda>a. a < fresh_tl s) as" and tl: "tail_tl s = Some (last as)"
    using False by (simp_all add: wellformed_tl_def)
  from p False obtain h where hd: "head_tl s = Some h" by (cases as) auto
  from path_last_next_tl [OF p False] obtain m where
    m: "heap_tl s (last as) = Some m" "next_tl m = None" by blast
  from b have nf: "fresh_tl s \<notin> set as" by (auto simp: list_all_iff)
  then have ne: "last as \<noteq> fresh_tl s" using False last_in_set by metis
  let ?h1 = "(heap_tl s)(fresh_tl s \<mapsto> new_Message_tl t (indentWidth_tl s))"
  let ?s' = "s\<lparr> heap_tl := ?h1(last as \<mapsto> m\<lparr>next_tl := Some (fresh_tl s)\<rparr>),
                  fresh_tl := Suc (fresh_tl s), tail_tl := Some (fresh_tl s) \<rparr>"
  have w: "write_tl t s = Inr ?s'"
    using hd tl m ne by (simp add: write_tl_def Let_def)
  have p1: "path_tl ?h1 (head_tl s) as" using p nf by (rule path_update_other_tl)
  have p2: "path_tl (?h1(last as \<mapsto> m\<lparr>next_tl := Some (fresh_tl s)\<rparr>)) (head_tl s) (as @ [fresh_tl s])"
  proof (rule path_append_tl [OF p1 False d nf])
    show "?h1 (last as) = Some m" using m ne by simp
    show "?h1 (fresh_tl s) = Some (new_Message_tl t (indentWidth_tl s))" by simp
    show "next_tl (new_Message_tl t (indentWidth_tl s)) = None" by (simp add: new_Message_tl_def)
  qed
  have widths: "list_all (\<lambda>a. case heap_tl s a of None \<Rightarrow> False | Some m \<Rightarrow> 0 \<le> width_tl m) as"
    using wf_tl by (simp add: wellformed_tl_def)
  have widths': "list_all (\<lambda>a. case (?h1(last as \<mapsto> m\<lparr>next_tl := Some (fresh_tl s)\<rparr>)) a of
                     None \<Rightarrow> False | Some m \<Rightarrow> 0 \<le> width_tl m) as"
    using widths m nf by (auto simp: list_all_iff split: option.splits)
  have wf_tl': "wellformed_tl ?s' (as @ [fresh_tl s])"
    using wf_tl p2 d nf b widths' False ne
    by (simp add: wellformed_tl_def new_Message_tl_def list_all_mono_fresh)
  have "map (\<lambda>a. entry_of_tl (the ((?h1(last as \<mapsto> m\<lparr>next_tl := Some (fresh_tl s)\<rparr>)) a))) as
        = map (\<lambda>a. entry_of_tl (the (heap_tl s a))) as"
    using m nf by (auto simp: entry_of_tl_def)
  then have "queue_tl ?s' = queue_tl s @ [(t, indentWidth_tl s)]"
    unfolding wellformed_queue_tl [OF wf_tl'] wellformed_queue_tl [OF wf_tl]
    using ne by (simp add: entry_of_tl_def new_Message_tl_def)
  with w wf_tl' show ?thesis by simp
qed

lemma show_loop_path_tl:
  "path_tl (heap_tl s) (Some a) (a # as) \<Longrightarrow>
   list_all (\<lambda>a. case heap_tl s a of None \<Rightarrow> False | Some m \<Rightarrow> 0 \<le> width_tl m) (a # as) \<Longrightarrow>
   0 \<le> iw \<Longrightarrow> ind = replicate (nat iw) CHR '' '' \<Longrightarrow>
   show_loop_tl a iw ind s =
     Some (Inr (s\<lparr> console_tl := console_tl s @
                    map (\<lambda>a. line_of_tl (entry_of_tl (the (heap_tl s a)))) (a # as) \<rparr>))"
proof (induction as arbitrary: a iw ind s)
  case Nil
  then obtain m where m: "heap_tl s a = Some m" "next_tl m = None" "0 \<le> width_tl m"
    by (auto split: option.splits)
  have step: "(if width_tl m \<noteq> iw
         then (case repeat '' '' (width_tl m) of Inl e \<Rightarrow> Inl e | Inr r \<Rightarrow> Inr (width_tl m, r))
         else Inr (iw, ind)) = Inr (width_tl m, replicate (nat (width_tl m)) CHR '' '')"
    using m Nil.prems by (simp add: repeat_char)
  show ?case
    by (subst show_loop_tl.simps)
       (simp add: m step line_of_tl_def entry_of_tl_def console_log_tl_def Let_def)
next
  case (Cons b bs)
  then obtain m where m: "heap_tl s a = Some m" "next_tl m = Some b" "0 \<le> width_tl m"
    and p: "path_tl (heap_tl s) (Some b) (b # bs)"
    and w: "list_all (\<lambda>a. case heap_tl s a of None \<Rightarrow> False | Some m \<Rightarrow> 0 \<le> width_tl m) (b # bs)"
    by (auto split: option.splits)
  have step: "(if width_tl m \<noteq> iw
         then (case repeat '' '' (width_tl m) of Inl e \<Rightarrow> Inl e | Inr r \<Rightarrow> Inr (width_tl m, r))
         else Inr (iw, ind)) = Inr (width_tl m, replicate (nat (width_tl m)) CHR '' '')"
    using m Cons.prems by (simp add: repeat_char)
  let ?s' = "s\<lparr> console_tl := console_tl s @
          [(Stdout,
            indent (replicate (nat (width_tl m)) CHR '' '') (text_tl m))] \<rparr>"
  have IH: "show_loop_tl b (width_tl m) (replicate (nat (width_tl m)) CHR '' '') ?s' =
     Some (Inr (?s'\<lparr> console_tl := console_tl ?s' @
                    map (\<lambda>a. line_of_tl (entry_of_tl (the (heap_tl ?s' a)))) (b # bs) \<rparr>))"
    by (rule Cons.IH) (use p w m in simp_all)
  show ?case
    by (subst show_loop_tl.simps)
       (simp add: m step IH line_of_tl_def entry_of_tl_def console_log_tl_def Let_def)
qed

lemma show_wellformed_tl:
  assumes wf_tl: "wellformed_tl s as"
  shows "show_tl s = Some (Inr (s\<lparr> console_tl := console_tl s @ drain_lines_tl (queue_tl s) \<rparr>))"
proof (cases as)
  case Nil
  with wf_tl have "head_tl s = None" by (simp add: wellformed_tl_def)
  then show ?thesis
    unfolding wellformed_queue_tl [OF wf_tl] using Nil by (simp add: show_tl_def drain_lines_tl_def)
next
  case (Cons a bs)
  with wf_tl have hd: "head_tl s = Some a" and p: "path_tl (heap_tl s) (Some a) (a # bs)"
    and w: "list_all (\<lambda>a. case heap_tl s a of None \<Rightarrow> False | Some m \<Rightarrow> 0 \<le> width_tl m) (a # bs)"
    by (simp_all add: wellformed_tl_def)
  have r: "repeat ''-'' 80 = Inr (replicate 80 CHR ''-'')"
    using repeat_char [of 80 "CHR ''-''"] by simp
  let ?s' = "console_log_tl (replicate 80 CHR ''-'') s"
  have "show_loop_tl a 0 [] ?s' =
     Some (Inr (?s'\<lparr> console_tl := console_tl ?s' @
                    map (\<lambda>a. line_of_tl (entry_of_tl (the (heap_tl ?s' a)))) (a # bs) \<rparr>))"
    by (rule show_loop_path_tl) (use p w in \<open>simp_all add: console_log_tl_def\<close>)
  then show ?thesis
    unfolding wellformed_queue_tl [OF wf_tl] using Cons hd r
    by (simp add: show_tl_def drain_lines_tl_def header_def console_log_tl_def)
qed

lemma init_wf_tl: "wf_tl init_tl"
  by (simp add: wf_tl_def wellformed_tl_def init_tl_def exI [of _ "[]"])

lemma write_wf_tl:
  assumes "wf_tl s"
  shows "\<exists>s'. write_tl t s = Inr s' \<and> wf_tl s' \<and>
           queue_tl s' = queue_tl s @ [(t, indentWidth_tl s)] \<and>
           indentSize_tl s' = indentSize_tl s \<and> indentLevel_tl s' = indentLevel_tl s \<and>
           indentWidth_tl s' = indentWidth_tl s \<and> names_tl s' = names_tl s \<and>
           console_tl s' = console_tl s"
proof -
  from assms obtain as where "wellformed_tl s as" by (auto simp: wf_tl_def)
  from write_wellformed_tl [OF this, of t] show ?thesis
    unfolding wf_tl_def by blast
qed

lemma wf_level_tl: "wf_tl s \<Longrightarrow> indentSize_tl s = 2 \<and> 0 \<le> indentLevel_tl s \<and> indentWidth_tl s = indentLevel_tl s * 2"
  by (auto simp: wf_tl_def wellformed_tl_def)

lemma names_update_wf_tl: "wf_tl s \<Longrightarrow> wf_tl (s\<lparr>names_tl := ns\<rparr>)"
  by (auto simp: wf_tl_def wellformed_tl_def)

lemma names_update_queue_tl: "queue_tl (s\<lparr>names_tl := ns\<rparr>) = queue_tl s"
  by (simp add: queue_tl_def)

lemma exports_unindent_wf_tl:
  assumes "wf_tl s"
  shows "\<exists>s'. exports_unindent_tl s = Inr s' \<and> wf_tl s' \<and> queue_tl s' = queue_tl s \<and>
           names_tl s' = names_tl s \<and> console_tl s' = console_tl s \<and> indentSize_tl s' = indentSize_tl s \<and>
           indentLevel_tl s' = (if 0 < indentLevel_tl s then indentLevel_tl s - 1 else indentLevel_tl s) \<and>
           indentWidth_tl s' = indentLevel_tl s' * 2"
proof -
  from assms obtain as where w: "wellformed_tl s as" by (auto simp: wf_tl_def)
  show ?thesis
  proof (cases "0 < indentLevel_tl s")
    case True
    let ?s' = "s\<lparr> indentLevel_tl := indentLevel_tl s - 1,
                    indentWidth_tl := (indentLevel_tl s - 1) * indentSize_tl s \<rparr>"
    have "wellformed_tl ?s' as" using w True by (simp add: wellformed_tl_def)
    then have "wf_tl ?s'" by (auto simp: wf_tl_def)
    moreover have "queue_tl ?s' = queue_tl s" by (simp add: queue_tl_def)
    ultimately show ?thesis using True w
      by (simp add: exports_unindent_tl_def wellformed_tl_def)
  next
    case False
    then show ?thesis using assms wf_level_tl [OF assms]
      by (simp add: exports_unindent_tl_def)
  qed
qed

lemma increase_wf_tl:
  assumes "wf_tl s"
  shows "wf_tl (s\<lparr> indentLevel_tl := indentLevel_tl s + 1,
                 indentWidth_tl := (indentLevel_tl s + 1) * indentSize_tl s \<rparr>)"
proof -
  from assms obtain as where w: "wellformed_tl s as" by (auto simp: wf_tl_def)
  then have "wellformed_tl (s\<lparr> indentLevel_tl := indentLevel_tl s + 1,
                 indentWidth_tl := (indentLevel_tl s + 1) * indentSize_tl s \<rparr>) as"
    by (simp add: wellformed_tl_def)
  then show ?thesis by (auto simp: wf_tl_def)
qed

lemma exports_indent_wf_tl:
  assumes "wf_tl s"
  shows "\<exists>s'. exports_indent_tl a s = Inr s' \<and> wf_tl s' \<and>
           queue_tl s' = queue_tl s @ (case a of None \<Rightarrow> [] | Some m \<Rightarrow> [(m, indentWidth_tl s)]) \<and>
           names_tl s' = names_tl s \<and> console_tl s' = console_tl s \<and> indentSize_tl s' = indentSize_tl s \<and>
           indentLevel_tl s' = indentLevel_tl s + 1 \<and> indentWidth_tl s' = indentLevel_tl s' * 2"
proof (cases a)
  case None
  with increase_wf_tl [OF assms] wf_level_tl [OF assms] show ?thesis
    by (simp add: exports_indent_tl_def queue_tl_def)
next
  case (Some m)
  from write_wf_tl [OF assms, of m] obtain s1 where
    s1: "write_tl m s = Inr s1" "wf_tl s1" "queue_tl s1 = queue_tl s @ [(m, indentWidth_tl s)]"
      "indentSize_tl s1 = indentSize_tl s" "indentLevel_tl s1 = indentLevel_tl s"
      "names_tl s1 = names_tl s" "console_tl s1 = console_tl s"
    by blast
  from increase_wf_tl [OF s1(2)] wf_level_tl [OF assms] s1 Some show ?thesis
    by (simp add: exports_indent_tl_def exports_log_tl_def format_def queue_tl_def)
qed

lemma exports_enter_wf_tl:
  assumes "wf_tl s"
  shows "\<exists>s'. exports_enter_tl a s = Inr s' \<and> wf_tl s' \<and>
           queue_tl s' = queue_tl s @ [(''> '' @ format a, indentWidth_tl s)] \<and>
           names_tl s' = names_tl s @ [case match_word (format a) of Some w \<Rightarrow> w | None \<Rightarrow> format a] \<and>
           console_tl s' = console_tl s \<and> indentSize_tl s' = indentSize_tl s \<and>
           indentLevel_tl s' = indentLevel_tl s + 1 \<and> indentWidth_tl s' = indentLevel_tl s' * 2"
proof -
  let ?n = "case match_word (format a) of Some w \<Rightarrow> w | None \<Rightarrow> format a"
  let ?s1 = "s\<lparr> names_tl := names_tl s @ [?n] \<rparr>"
  have w1: "wf_tl ?s1" using assms by (rule names_update_wf_tl)
  from write_wf_tl [OF w1, of "''> '' @ format a"] obtain s2 where
    s2: "write_tl (''> '' @ format a) ?s1 = Inr s2" "wf_tl s2"
      "queue_tl s2 = queue_tl ?s1 @ [(''> '' @ format a, indentWidth_tl ?s1)]"
      "indentSize_tl s2 = indentSize_tl ?s1" "indentLevel_tl s2 = indentLevel_tl ?s1"
      "names_tl s2 = names_tl ?s1" "console_tl s2 = console_tl ?s1"
    by blast
  from exports_indent_wf_tl [OF s2(2), of None] obtain s3 where
    s3: "exports_indent_tl None s2 = Inr s3" "wf_tl s3" "queue_tl s3 = queue_tl s2"
      "names_tl s3 = names_tl s2" "console_tl s3 = console_tl s2" "indentSize_tl s3 = indentSize_tl s2"
      "indentLevel_tl s3 = indentLevel_tl s2 + 1" "indentWidth_tl s3 = indentLevel_tl s3 * 2"
    by auto
  have "exports_enter_tl a s = Inr s3"
    using s2(1) s3(1) wf_level_tl [OF assms] by (simp add: exports_enter_tl_def Let_def repeat_def)
  with s2 s3 show ?thesis by (simp add: names_update_queue_tl)
qed

lemma exports_leave_wf_tl:
  assumes "wf_tl s"
  shows "\<exists>s'. exports_leave_tl a s = Inr s' \<and> wf_tl s' \<and>
           queue_tl s' = queue_tl s @
             [(''< '' @ join2 (fst (pop (names_tl s))) (Some (format a)), indentWidth_tl s')] \<and>
           names_tl s' = snd (pop (names_tl s)) \<and>
           console_tl s' = console_tl s \<and> indentSize_tl s' = indentSize_tl s \<and>
           indentLevel_tl s' = (if 0 < indentLevel_tl s then indentLevel_tl s - 1 else indentLevel_tl s) \<and>
           indentWidth_tl s' = indentLevel_tl s' * 2"
proof -
  let ?s1 = "s\<lparr> names_tl := snd (pop (names_tl s)) \<rparr>"
  let ?t = "''< '' @ join2 (fst (pop (names_tl s))) (Some (format a))"
  have w1: "wf_tl ?s1" using assms by (rule names_update_wf_tl)
  from exports_unindent_wf_tl [OF w1] obtain s2 where
    s2: "exports_unindent_tl ?s1 = Inr s2" "wf_tl s2" "queue_tl s2 = queue_tl ?s1"
      "names_tl s2 = names_tl ?s1" "console_tl s2 = console_tl ?s1" "indentSize_tl s2 = indentSize_tl ?s1"
      "indentLevel_tl s2 = (if 0 < indentLevel_tl ?s1 then indentLevel_tl ?s1 - 1 else indentLevel_tl ?s1)"
      "indentWidth_tl s2 = indentLevel_tl s2 * 2"
    by blast
  from write_wf_tl [OF s2(2), of ?t] obtain s3 where
    s3: "write_tl ?t s2 = Inr s3" "wf_tl s3"
      "queue_tl s3 = queue_tl s2 @ [(?t, indentWidth_tl s2)]"
      "indentSize_tl s3 = indentSize_tl s2" "indentLevel_tl s3 = indentLevel_tl s2"
      "indentWidth_tl s3 = indentWidth_tl s2" "names_tl s3 = names_tl s2" "console_tl s3 = console_tl s2"
    by blast
  have "exports_leave_tl a s = Inr s3"
    using s2(1) s3(1) wf_level_tl [OF assms]
    by (simp add: exports_leave_tl_def Let_def repeat_def split_beta)
  with s2 s3 show ?thesis by (simp add: names_update_queue_tl)
qed

lemma exec_wf_tl: "wf_tl s \<Longrightarrow> \<exists>s'. exec_tl c s = Inr s' \<and> wf_tl s' \<and> console_tl s' = console_tl s"
proof (cases c)
  case (Log_tl a)
  assume "wf_tl s"
  from write_wf_tl [OF this] Log_tl show ?thesis by (simp add: exports_log_tl_def) blast
next
  case (Warn_tl a)
  assume "wf_tl s"
  from write_wf_tl [OF this] Warn_tl show ?thesis by (simp add: exports_warn_tl_def) blast
next
  case (Error_tl a)
  assume "wf_tl s"
  from write_wf_tl [OF this] Error_tl show ?thesis by (simp add: exports_error_tl_def) blast
next
  case (Ignore_tl a)
  assume "wf_tl s"
  with Ignore_tl show ?thesis by (simp add: exports_ignore_tl_def)
next
  case (Indent_tl a)
  assume "wf_tl s"
  from exports_indent_wf_tl [OF this, of a] Indent_tl show ?thesis by auto
next
  case Unindent_tl
  assume "wf_tl s"
  from exports_unindent_wf_tl [OF this] Unindent_tl show ?thesis by auto
next
  case (Enter_tl a)
  assume "wf_tl s"
  from exports_enter_wf_tl [OF this, of a] Enter_tl show ?thesis by auto
next
  case (Leave_tl a)
  assume "wf_tl s"
  from exports_leave_wf_tl [OF this, of a] Leave_tl show ?thesis by auto
qed

lemma run_wf_tl: "wf_tl s \<Longrightarrow> \<exists>s'. run_tl cs s = Inr s' \<and> wf_tl s' \<and> console_tl s' = console_tl s"
proof (induction cs arbitrary: s)
  case Nil
  then show ?case by simp
next
  case (Cons c cs)
  from exec_wf_tl [OF Cons.prems, of c] obtain s1 where
    "exec_tl c s = Inr s1" "wf_tl s1" "console_tl s1 = console_tl s" by blast
  with Cons.IH [of s1] show ?case by simp
qed

lemma reachable_wf_tl: "run_tl cs init_tl = Inr s \<Longrightarrow> wf_tl s"
  using run_wf_tl [OF init_wf_tl, of cs] by auto

lemma reachable_console_tl: "run_tl cs init_tl = Inr s \<Longrightarrow> console_tl s = []"
  using run_wf_tl [OF init_wf_tl, of cs] by (auto simp: init_tl_def)

lemma show_wf_tl:
  "wf_tl s \<Longrightarrow> show_tl s = Some (Inr (s\<lparr> console_tl := console_tl s @ drain_lines_tl (queue_tl s) \<rparr>))"
  by (auto simp: wf_tl_def dest: show_wellformed_tl)

lemma wf_console_update_tl: "wf_tl s \<Longrightarrow> wf_tl (s\<lparr>console_tl := c\<rparr>)"
  by (auto simp: wf_tl_def wellformed_tl_def)

lemma queue_console_update_tl: "queue_tl (s\<lparr>console_tl := c\<rparr>) = queue_tl s"
  by (simp add: queue_tl_def)

lemma reachable_show_tl:
  "run_tl cs init_tl = Inr s \<Longrightarrow>
   show_tl s = Some (Inr (s\<lparr> console_tl := drain_lines_tl (queue_tl s) \<rparr>))"
  using show_wf_tl [OF reachable_wf_tl, of cs s] reachable_console_tl [of cs s] by simp

lemmas call_defs_tl =
  exports_log_tl_def exports_warn_tl_def exports_error_tl_def exports_ignore_tl_def
  exports_indent_tl_def exports_unindent_tl_def exports_enter_tl_def exports_leave_tl_def
  write_tl_def repeat_def match_word_def is_word_char_def join2_def truthy_def pop_def
  init_tl_def format_def new_Message_tl_def Let_def queue_tl_def entry_of_tl_def

lemma exec_names_level_guarded:
  assumes w: "wf s"
    and c: "c \<noteq> Unindent \<or> indentLevel s = 0 \<or> int (length (names s)) < indentLevel s"
    and le: "int (length (names s)) \<le> indentLevel s"
  shows "\<exists>s'. exec c s = Inr s' \<and> wf s' \<and> int (length (names s')) \<le> indentLevel s'"
proof (cases "c = Unindent")
  case True
  from exports_unindent_wf [OF w] obtain s' where
    s': "exports_unindent s = Inr s'" "wf s'" "names s' = names s"
    "indentLevel s' = (if 0 < indentLevel s then indentLevel s - 1 else indentLevel s)"
    by blast
  from c True le have "int (length (names s)) \<le>
      (if 0 < indentLevel s then indentLevel s - 1 else indentLevel s)"
    by auto
  with s' True show ?thesis by simp
next
  case False
  from exec_names_level [OF w False le] show ?thesis .
qed

section \<open>The claims\<close>

text \<open>
  Claim C1. For every sequence of \<^verbatim>\<open>log\<close>, \<^verbatim>\<open>warn\<close> and \<^verbatim>\<open>error\<close> calls, with calls that
  change the indentation level (\<^verbatim>\<open>indent()\<close>, \<^verbatim>\<open>unindent()\<close>) anywhere between them,
  the queue holds one message per call, in call order, each with the width that was
  current when it was enqueued (\<open>logged\<close>); \<^verbatim>\<open>show\<close> prints, after the header line, one
  console line per call in that order, each starting with as many spaces as that width;
  and a change of the indentation level after that leaves the queue, and so the stored
  widths, as they are.
\<close>

theorem drain_prints_calls_in_order:
  "list_all plain cs \<Longrightarrow>
   \<exists>s s'. run cs init = Inr s \<and> queue s = logged 0 cs \<and>
     length (logged 0 cs) = length (filter is_log_call cs) \<and>
     show_queue s = Some (Inr s') \<and>
     console s' = (if logged 0 cs = [] then [] else header # map line_of (logged 0 cs)) \<and>
     list_all (\<lambda>(t, w, ty). 0 \<le> w \<and>
        (\<exists>rest. snd (line_of (t, w, ty)) = replicate (nat w) CHR '' '' @ rest)) (logged 0 cs) \<and>
     (\<exists>s1. exports_indent None s = Inr s1 \<and> queue s1 = queue s) \<and>
     (\<exists>s1. exports_unindent s = Inr s1 \<and> queue s1 = queue s)"
proof -
  assume pl: "list_all plain cs"
  have q0: "queue init = []" "indentLevel init = 0" "console init = []"
    by (simp_all add: queue_def init_def)
  from run_plain [OF init_wf pl] q0 obtain s where
    s: "run cs init = Inr s" "wf s" "queue s = logged 0 cs" by auto
  have c: "console s = []" using s(1) by (rule reachable_console)
  from show_queue_wf [OF s(2)] c s(3)
  have sh: "show_queue s = Some (Inr (s\<lparr> console := drain_lines (logged 0 cs) \<rparr>))" by simp
  have pre: "list_all (\<lambda>(t, w, ty). 0 \<le> w \<and>
        (\<exists>rest. snd (line_of (t, w, ty)) = replicate (nat w) CHR '' '' @ rest)) (logged 0 cs)"
    using logged_widths [of 0 cs] by (auto simp: list_all_iff line_of_prefix)
  from exports_indent_wf [OF s(2), of None]
  have i: "\<exists>s1. exports_indent None s = Inr s1 \<and> queue s1 = queue s" by auto
  from exports_unindent_wf [OF s(2)]
  have u: "\<exists>s1. exports_unindent s = Inr s1 \<and> queue s1 = queue s" by auto
  from s sh pre i u show ?thesis
    by (simp add: logged_length drain_lines_def)
qed

theorem drain_prints_calls_in_order_witness:
  "list_all plain [Log (Some ''a''), Indent None, Warn (Some ''b''), Unindent, Unindent,
      Error (Some ''c'')] \<and>
   (\<exists>s s'. run [Log (Some ''a''), Indent None, Warn (Some ''b''), Unindent, Unindent,
      Error (Some ''c'')] init = Inr s \<and>
     queue s = [(''a'', 0, LOG), (''b'', 2, WARN), (''c'', 0, ERROR)] \<and>
     show_queue s = Some (Inr s') \<and>
     console s' = [(Stdout, replicate 80 CHR ''-''), (Stdout, ''a''), (Stderr, ''  b''),
                   (Stderr, ''c'')])"
proof -
  let ?cs = "[Log (Some ''a''), Indent None, Warn (Some ''b''), Unindent, Unindent,
      Error (Some ''c'')]"
  have p: "list_all plain ?cs"
    by (simp add: plain_def)
  have l: "logged 0 ?cs = [(''a'', 0, LOG), (''b'', 2, WARN), (''c'', 0, ERROR)]"
    by (simp add: format_def)
  from drain_prints_calls_in_order [OF p] obtain s s' where
    r: "run ?cs init = Inr s" and q: "queue s = logged 0 ?cs" and
    sh: "show_queue s = Some (Inr s')" and
    c: "console s' = (if logged 0 ?cs = [] then [] else header # map line_of (logged 0 ?cs))"
    by blast
  have "console s' = [(Stdout, replicate 80 CHR ''-''), (Stdout, ''a''), (Stderr, ''  b''),
                   (Stderr, ''c'')]"
    unfolding c l
    by (simp add: line_of_def header_def indent_def LOG_def WARN_def ERROR_def numeral_2_eq_2)
  with p r q l sh show ?thesis by metis
qed

text \<open>
  Claim C2. \<^verbatim>\<open>leave\<close> in any state that calls of the exported functions can reach:
  the name saved last is removed from the saved names (none when there is none, and the
  name is then empty); the level is decreased unless it is 0; and one message is
  enqueued, at the width after the decrease, whose text is the close marker \<^verbatim>\<open><\<close>, padding
  that makes marker and padding one indentation unit long, and name and message joined
  as the claim says (\<open>spec_join\<close>: with one space when neither is empty, the one that is
  not empty otherwise, the empty string when both are). The witness is the nesting
  \<^verbatim>\<open>enter('A'); enter('B'); leave(); leave('done')\<close>, which removes B before A.
\<close>

theorem leave_pops_and_joins:
  "run cs init = Inr s \<Longrightarrow>
   \<exists>s'. exports_leave a s = Inr s' \<and>
     names s' = butlast (names s) \<and>
     indentLevel s' = (if 0 < indentLevel s then indentLevel s - 1 else 0) \<and>
     indentWidth s' = indentLevel s' * indentSize s \<and>
     queue s' = queue s @
       [(CHR ''<'' # replicate (nat (indentSize s) - 1) CHR '' '' @
           spec_join (if names s = [] then [] else last (names s)) (format a),
         indentWidth s', LOG)]"
proof -
  assume r: "run cs init = Inr s"
  note lv = reachable_level [OF r]
  from exports_leave_wf [OF reachable_wf [OF r], of a] lv show ?thesis
    by (auto simp: join2_spec pop_snd eval_nat_numeral)
qed

theorem leave_pops_and_joins_witness:
  "(\<exists>s s'. run [Enter (Some ''A''), Enter (Some ''B'')] init = Inr s \<and>
      names s = [''A'', ''B''] \<and> exports_leave None s = Inr s' \<and> names s' = [''A''] \<and>
      queue s' = [(''> A'', 0, LOG), (''> B'', 2, LOG), (''< B'', 2, LOG)]) \<and>
   (\<exists>s s'. run [Enter (Some ''A''), Enter (Some ''B''), Leave None] init = Inr s \<and>
      names s = [''A''] \<and> exports_leave (Some ''done'') s = Inr s' \<and> names s' = [] \<and>
      queue s' = [(''> A'', 0, LOG), (''> B'', 2, LOG), (''< B'', 2, LOG),
                  (''< A done'', 0, LOG)])"
proof
  let ?cs = "[Enter (Some ''A''), Enter (Some ''B'')]"
  from run_wf [OF init_wf, of ?cs] obtain s where r: "run ?cs init = Inr s" by blast
  then have e: "names s = [''A'', ''B'']" "queue s = [(''> A'', 0, LOG), (''> B'', 2, LOG)]"
    "indentLevel s = 2" "indentSize s = 2"
    by (auto simp: call_defs)
  from leave_pops_and_joins [OF r, of None] obtain s' where
    l: "exports_leave None s = Inr s'" "names s' = butlast (names s)"
    "indentLevel s' = (if 0 < indentLevel s then indentLevel s - 1 else 0)"
    "indentWidth s' = indentLevel s' * indentSize s"
    "queue s' = queue s @
       [(CHR ''<'' # replicate (nat (indentSize s) - 1) CHR '' '' @
           spec_join (if names s = [] then [] else last (names s)) (format None),
         indentWidth s', LOG)]"
    by blast
  from l e have "names s' = [''A'']"
    "queue s' = [(''> A'', 0, LOG), (''> B'', 2, LOG), (''< B'', 2, LOG)]"
    by (simp_all add: spec_join_def format_def eval_nat_numeral)
  with r e l(1)
  show "\<exists>s s'. run ?cs init = Inr s \<and>
      names s = [''A'', ''B''] \<and> exports_leave None s = Inr s' \<and> names s' = [''A''] \<and>
      queue s' = [(''> A'', 0, LOG), (''> B'', 2, LOG), (''< B'', 2, LOG)]"
    by blast
next
  let ?cs = "[Enter (Some ''A''), Enter (Some ''B''), Leave None]"
  from run_wf [OF init_wf, of ?cs] obtain s where r: "run ?cs init = Inr s" by blast
  then have e: "names s = [''A'']"
    "queue s = [(''> A'', 0, LOG), (''> B'', 2, LOG), (''< B'', 2, LOG)]"
    "indentLevel s = 1" "indentSize s = 2"
    by (auto simp: call_defs)
  from leave_pops_and_joins [OF r, of "Some ''done''"] obtain s' where
    l: "exports_leave (Some ''done'') s = Inr s'" "names s' = butlast (names s)"
    "indentLevel s' = (if 0 < indentLevel s then indentLevel s - 1 else 0)"
    "indentWidth s' = indentLevel s' * indentSize s"
    "queue s' = queue s @
       [(CHR ''<'' # replicate (nat (indentSize s) - 1) CHR '' '' @
           spec_join (if names s = [] then [] else last (names s)) (format (Some ''done'')),
         indentWidth s', LOG)]"
    by blast
  from l e have "names s' = []"
    "queue s' = [(''> A'', 0, LOG), (''> B'', 2, LOG), (''< B'', 2, LOG),
                  (''< A done'', 0, LOG)]"
    by (simp_all add: spec_join_def format_def eval_nat_numeral)
  with r e l(1)
  show "\<exists>s s'. run ?cs init = Inr s \<and>
      names s = [''A''] \<and> exports_leave (Some ''done'') s = Inr s' \<and> names s' = [] \<and>
      queue s' = [(''> A'', 0, LOG), (''> B'', 2, LOG), (''< B'', 2, LOG),
                  (''< A done'', 0, LOG)]"
    by blast
qed

text \<open>
  Claim C3. The claim says that \<^verbatim>\<open>enter\<close> saves the first whitespace-delimited token of
  the message (\<open>first_token\<close>). \<^verbatim>\<open>enter\<close> saves what \<^verbatim>\<open>/\w+/\<close> matches, the first run of
  letters, digits and underscores: for \<^verbatim>\<open>enter('f(x) start')\<close> that is \<^verbatim>\<open>f\<close>, and the
  first token is \<^verbatim>\<open>f(x)\<close>.
\<close>

theorem enter_first_token_counterexample:
  "\<exists>s'. exports_enter (Some ''f(x) start'') init = Inr s' \<and> names s' = [''f''] \<and>
     first_token ''f(x) start'' = ''f(x)''"
proof -
  from exports_enter_wf [OF init_wf, of "Some ''f(x) start''"] obtain s' where
    "exports_enter (Some ''f(x) start'') init = Inr s'"
    "names s' = names init @ [case match_word (format (Some ''f(x) start'')) of
        Some w \<Rightarrow> w | None \<Rightarrow> format (Some ''f(x) start'')]"
    by blast
  moreover have "match_word ''f(x) start'' = Some ''f''"
    by (simp add: match_word_def is_word_char_def)
  moreover have "first_token ''f(x) start'' = ''f(x)''"
    by (simp add: first_token_def is_space_def)
  ultimately show ?thesis by (simp add: format_def init_def)
qed

text \<open>
  Claim C3, as amended. \<^verbatim>\<open>enter\<close> in any state that calls of the exported functions can
  reach: the message behind the open marker \<^verbatim>\<open>>\<close> and padding, one indentation unit long
  together, is enqueued at the width before the increase; the name appended to the
  saved names is the first maximal run of word characters of the message (only other
  characters stand before it, and no word character follows it), or the whole message
  when it has no word character; and the level is increased by one.
\<close>

theorem enter_pushes_first_word:
  "run cs init = Inr s \<Longrightarrow>
   \<exists>s' name. exports_enter a s = Inr s' \<and> names s' = names s @ [name] \<and>
     queue s' = queue s @
       [(CHR ''>'' # replicate (nat (indentSize s) - 1) CHR '' '' @ format a,
         indentWidth s, LOG)] \<and>
     indentLevel s' = indentLevel s + 1 \<and> indentWidth s' = indentLevel s' * indentSize s \<and>
     (if list_ex is_word_char (format a)
      then \<exists>pre post. format a = pre @ name @ post \<and>
             list_all (\<lambda>c. \<not> is_word_char c) pre \<and> name \<noteq> [] \<and>
             list_all is_word_char name \<and> (post = [] \<or> \<not> is_word_char (hd post))
      else name = format a)"
proof -
  assume r: "run cs init = Inr s"
  note lv = reachable_level [OF r]
  let ?name = "case match_word (format a) of Some w \<Rightarrow> w | None \<Rightarrow> format a"
  from exports_enter_wf [OF reachable_wf [OF r], of a] obtain s' where
    s': "exports_enter a s = Inr s'" "names s' = names s @ [?name]"
    "queue s' = queue s @ [(''> '' @ format a, indentWidth s, LOG)]"
    "indentLevel s' = indentLevel s + 1" "indentWidth s' = indentLevel s' * 2"
    by blast
  have "if list_ex is_word_char (format a)
      then \<exists>pre post. format a = pre @ ?name @ post \<and>
             list_all (\<lambda>c. \<not> is_word_char c) pre \<and> ?name \<noteq> [] \<and>
             list_all is_word_char ?name \<and> (post = [] \<or> \<not> is_word_char (hd post))
      else ?name = format a"
  proof (cases "match_word (format a)")
    case None
    then show ?thesis using match_word_None [of "format a"] by simp
  next
    case (Some w)
    with match_word_None [of "format a"] have "list_ex is_word_char (format a)" by simp
    with match_word_Some [OF Some] Some show ?thesis by simp
  qed
  with s' lv show ?thesis by (auto simp: eval_nat_numeral)
qed

theorem enter_pushes_first_word_witness:
  "\<exists>s s'. run [Indent None] init = Inr s \<and>
     exports_enter (Some ''bar baz'') s = Inr s' \<and> names s' = [''bar''] \<and>
     queue s' = [(''> bar baz'', 2, LOG)] \<and> indentLevel s' = 2 \<and> indentWidth s' = 4 \<and>
     list_ex is_word_char ''bar baz'' \<and> ''bar baz'' = [] @ ''bar'' @ '' baz''"
proof -
  let ?cs = "[Indent None]"
  from run_wf [OF init_wf, of ?cs] obtain s where
    r: "run ?cs init = Inr s" and w: "wf s" by blast
  then have e: "names s = []" "queue s = []" "indentLevel s = 1" "indentSize s = 2"
    "indentWidth s = 2"
    by (auto simp: call_defs)
  from enter_pushes_first_word [OF r, of "Some ''bar baz''"] obtain s' name where
    l: "exports_enter (Some ''bar baz'') s = Inr s'" "names s' = names s @ [name]"
    "queue s' = queue s @
       [(CHR ''>'' # replicate (nat (indentSize s) - 1) CHR '' '' @ format (Some ''bar baz''),
         indentWidth s, LOG)]"
    "indentLevel s' = indentLevel s + 1" "indentWidth s' = indentLevel s' * indentSize s"
    by blast
  have m: "match_word ''bar baz'' = Some ''bar''"
    by (simp add: match_word_def is_word_char_def)
  from exports_enter_wf [OF w, of "Some ''bar baz''"] l(1) m e
  have "names s' = [''bar'']" by (auto simp: format_def)
  moreover have "list_ex is_word_char ''bar baz''" by (simp add: is_word_char_def)
  ultimately show ?thesis using l e r by (auto simp: format_def eval_nat_numeral)
qed

text \<open>
  Claim C4. The claim says that a second call of \<^verbatim>\<open>show\<close> after a first one prints
  nothing more. \<^verbatim>\<open>show\<close> does not empty the queue: after \<^verbatim>\<open>log('a')\<close> the second call
  prints the header line and the message once more.
\<close>

theorem drain_twice_counterexample:
  "\<exists>s s1 s2. run [Log (Some ''a'')] init = Inr s \<and>
     show_queue s = Some (Inr s1) \<and> show_queue s1 = Some (Inr s2) \<and>
     console s1 = [(Stdout, replicate 80 CHR ''-''), (Stdout, ''a'')] \<and>
     console s2 = [(Stdout, replicate 80 CHR ''-''), (Stdout, ''a''),
                   (Stdout, replicate 80 CHR ''-''), (Stdout, ''a'')]"
proof -
  let ?cs = "[Log (Some ''a'')]"
  have p: "list_all plain ?cs" by (simp add: plain_def)
  from run_plain [OF init_wf p] obtain s where
    r: "run ?cs init = Inr s" and w: "wf s" and
    q: "queue s = queue init @ logged (indentLevel init) ?cs"
    by blast
  have q': "queue s = [(''a'', 0, LOG)]"
    unfolding q by (simp add: queue_def init_def format_def)
  have d: "drain_lines (queue s) = [(Stdout, replicate 80 CHR ''-''), (Stdout, ''a'')]"
    unfolding q' by (simp add: drain_lines_def header_def line_of_def indent_def)
  let ?s1 = "s\<lparr> console := drain_lines (queue s) \<rparr>"
  have s1: "show_queue s = Some (Inr ?s1)" using r by (rule reachable_show)
  have "show_queue ?s1 =
      Some (Inr (?s1\<lparr> console := console ?s1 @ drain_lines (queue ?s1) \<rparr>))"
    by (rule show_queue_wf) (rule wf_console_update [OF w])
  then have s2: "show_queue ?s1 =
      Some (Inr (s\<lparr> console := drain_lines (queue s) @ drain_lines (queue s) \<rparr>))"
    by (simp add: queue_console_update)
  let ?s2 = "s\<lparr> console := drain_lines (queue s) @ drain_lines (queue s) \<rparr>"
  have c1: "console ?s1 = [(Stdout, replicate 80 CHR ''-''), (Stdout, ''a'')]"
    using d by simp
  have c2: "console ?s2 = [(Stdout, replicate 80 CHR ''-''), (Stdout, ''a''),
                   (Stdout, replicate 80 CHR ''-''), (Stdout, ''a'')]"
    using d by simp
  from r s1 s2 c1 c2 show ?thesis by blast
qed

text \<open>
  Claim C4, as amended. On an empty queue \<^verbatim>\<open>show\<close> is a no-op: the state is the one
  before and nothing is printed, no header line either, however often it is called. On
  a queue that is not empty \<^verbatim>\<open>show\<close> prints the header line and one line per message
  and leaves the queue as it is, so a second call prints the same lines once more.
\<close>

theorem drain_twice_prints_twice:
  "run cs init = Inr s \<Longrightarrow>
   \<exists>s1 s2. show_queue s = Some (Inr s1) \<and> show_queue s1 = Some (Inr s2) \<and>
     console s1 = (if queue s = [] then [] else header # map line_of (queue s)) \<and>
     console s2 = console s1 @ console s1 \<and>
     queue s1 = queue s \<and> queue s2 = queue s \<and>
     (queue s = [] \<longrightarrow> s1 = s \<and> s2 = s \<and> console s2 = [])"
proof -
  assume r: "run cs init = Inr s"
  then have w: "wf s" by (rule reachable_wf)
  have c: "console s = []" using r by (rule reachable_console)
  let ?s1 = "s\<lparr> console := drain_lines (queue s) \<rparr>"
  let ?s2 = "s\<lparr> console := drain_lines (queue s) @ drain_lines (queue s) \<rparr>"
  have s1: "show_queue s = Some (Inr ?s1)" using r by (rule reachable_show)
  have "show_queue ?s1 =
      Some (Inr (?s1\<lparr> console := console ?s1 @ drain_lines (queue ?s1) \<rparr>))"
    by (rule show_queue_wf) (rule wf_console_update [OF w])
  then have s2: "show_queue ?s1 = Some (Inr ?s2)"
    by (simp add: queue_console_update)
  have e: "queue s = [] \<longrightarrow> ?s1 = s \<and> ?s2 = s" using c by (simp add: drain_lines_def)
  have "console ?s1 = (if queue s = [] then [] else header # map line_of (queue s))"
    "console ?s2 = console ?s1 @ console ?s1" "queue ?s1 = queue s" "queue ?s2 = queue s"
    "queue s = [] \<longrightarrow> ?s1 = s \<and> ?s2 = s \<and> console ?s2 = []"
    using e c by (simp_all add: drain_lines_def queue_console_update)
  with s1 s2 show ?thesis by blast
qed

theorem drain_twice_prints_twice_witness:
  "(\<exists>s. run [] init = Inr s \<and> queue s = [] \<and> show_queue s = Some (Inr s) \<and> console s = []) \<and>
   (\<exists>s s1 s2. run [Warn (Some ''w'')] init = Inr s \<and>
      show_queue s = Some (Inr s1) \<and> show_queue s1 = Some (Inr s2) \<and>
      console s1 = [header, (Stderr, ''w'')] \<and>
      console s2 = [header, (Stderr, ''w''), header, (Stderr, ''w'')])"
proof
  have r0: "run [] init = Inr init" by simp
  have q0: "queue init = []" by (simp add: queue_def init_def)
  from drain_twice_prints_twice [OF r0] q0
  have "show_queue init = Some (Inr init) \<and> console init = []" by auto
  with r0 q0
  show "\<exists>s. run [] init = Inr s \<and> queue s = [] \<and> show_queue s = Some (Inr s) \<and> console s = []"
    by blast
next
  let ?cs = "[Warn (Some ''w'')]"
  have p: "list_all plain ?cs" by (simp add: plain_def)
  from run_plain [OF init_wf p] obtain s where
    r: "run ?cs init = Inr s" and q: "queue s = queue init @ logged (indentLevel init) ?cs"
    by blast
  have q': "queue s = [(''w'', 0, WARN)]"
    unfolding q by (simp add: queue_def init_def format_def)
  from drain_twice_prints_twice [OF r] obtain s1 s2 where
    s: "show_queue s = Some (Inr s1)" "show_queue s1 = Some (Inr s2)"
      "console s1 = (if queue s = [] then [] else header # map line_of (queue s))"
      "console s2 = console s1 @ console s1"
    by blast
  have "console s1 = [header, (Stderr, ''w'')]"
    unfolding s(3) q' by (simp add: line_of_def indent_def LOG_def WARN_def)
  moreover from this s(4)
  have "console s2 = [header, (Stderr, ''w''), header, (Stderr, ''w'')]" by simp
  ultimately
  show "\<exists>s s1 s2. run ?cs init = Inr s \<and>
      show_queue s = Some (Inr s1) \<and> show_queue s1 = Some (Inr s2) \<and>
      console s1 = [header, (Stderr, ''w'')] \<and>
      console s2 = [header, (Stderr, ''w''), header, (Stderr, ''w'')]"
    using r s(1,2) by blast
qed

text \<open>
  Claim C5. The claim says that there are never more saved names than levels.
  \<^verbatim>\<open>unindent\<close> decreases the level and leaves the saved names alone: after
  \<^verbatim>\<open>enter('A'); unindent()\<close> one name is saved at level 0.
\<close>

theorem names_exceed_level_counterexample:
  "\<exists>s. run [Enter (Some ''A''), Unindent] init = Inr s \<and> names s = [''A''] \<and>
     indentLevel s = 0"
proof -
  from run_wf [OF init_wf, of "[Enter (Some ''A''), Unindent]"] obtain s where
    r: "run [Enter (Some ''A''), Unindent] init = Inr s" by blast
  then have "names s = [''A'']" "indentLevel s = 0"
    by (auto simp: call_defs)
  with r show ?thesis by blast
qed

text \<open>
  Claim C5, as amended. After every sequence of calls of the exported functions in
  which \<^verbatim>\<open>unindent\<close> is only called at level 0 or at a level greater than the number of
  saved names (\<open>unindent_guarded\<close>), there are at most as many saved names as levels.
  The condition on \<^verbatim>\<open>unindent\<close> cannot be dropped: where the number of saved names is
  the level and the level is not 0, \<^verbatim>\<open>unindent\<close> leaves more saved names than levels.
\<close>

theorem names_within_level:
  "unindent_guarded cs init \<Longrightarrow>
   \<exists>s. run cs init = Inr s \<and> int (length (names s)) \<le> indentLevel s \<and>
     (int (length (names s)) = indentLevel s \<and> 0 < indentLevel s \<longrightarrow>
        (\<exists>s'. exports_unindent s = Inr s' \<and> indentLevel s' < int (length (names s'))))"
proof -
  have "\<exists>s'. run cs s = Inr s' \<and> wf s' \<and> int (length (names s')) \<le> indentLevel s'"
    if "unindent_guarded cs s" "wf s" "int (length (names s)) \<le> indentLevel s"
    for s
    using that
  proof (induction cs arbitrary: s)
    case Nil
    then show ?case by simp
  next
    case (Cons c cs)
    from Cons.prems(1)
    have g: "c \<noteq> Unindent \<or> indentLevel s = 0 \<or> int (length (names s)) < indentLevel s"
      by simp
    from exec_names_level_guarded [OF Cons.prems(2) g Cons.prems(3)] obtain s1 where
      s1: "exec c s = Inr s1" "wf s1" "int (length (names s1)) \<le> indentLevel s1" by blast
    with Cons.prems(1) have "unindent_guarded cs s1" by simp
    with Cons.IH [of s1] s1 show ?case by simp
  qed
  moreover assume "unindent_guarded cs init"
  moreover have "int (length (names init)) \<le> indentLevel init" by (simp add: init_def)
  ultimately obtain s where
    s: "run cs init = Inr s" "wf s" "int (length (names s)) \<le> indentLevel s"
    using init_wf by blast
  have "\<exists>s'. exports_unindent s = Inr s' \<and> indentLevel s' < int (length (names s'))"
    if "int (length (names s)) = indentLevel s" "0 < indentLevel s"
    using exports_unindent_wf [OF s(2)] that by auto
  with s show ?thesis by blast
qed

theorem names_within_level_witness:
  "unindent_guarded [Indent None, Enter (Some ''A''), Leave None, Unindent] init \<and>
   (\<exists>s. run [Indent None, Enter (Some ''A''), Leave None, Unindent] init = Inr s \<and>
      names s = [] \<and> indentLevel s = 0 \<and> int (length (names s)) \<le> indentLevel s) \<and>
   unindent_guarded [Enter (Some ''A'')] init \<and>
   (\<exists>s s'. run [Enter (Some ''A'')] init = Inr s \<and> names s = [''A''] \<and> indentLevel s = 1 \<and>
      exports_unindent s = Inr s' \<and> indentLevel s' < int (length (names s')))"
proof -
  let ?cs = "[Indent None, Enter (Some ''A''), Leave None, Unindent]"
  have g: "unindent_guarded ?cs init" by (simp add: call_defs)
  from names_within_level [OF g] obtain s where
    r: "run ?cs init = Inr s" and le: "int (length (names s)) \<le> indentLevel s" by blast
  from r have e: "names s = []" "indentLevel s = 0" by (auto simp: call_defs)
  have g2: "unindent_guarded [Enter (Some ''A'')] init" by (simp add: call_defs)
  from names_within_level [OF g2] obtain s2 where
    r2: "run [Enter (Some ''A'')] init = Inr s2" and
    b: "int (length (names s2)) = indentLevel s2 \<and> 0 < indentLevel s2 \<longrightarrow>
        (\<exists>s'. exports_unindent s2 = Inr s' \<and> indentLevel s' < int (length (names s')))"
    by blast
  from r2 have e2: "names s2 = [''A'']" "indentLevel s2 = 1" by (auto simp: call_defs)
  with b obtain s' where
    u: "exports_unindent s2 = Inr s'" "indentLevel s' < int (length (names s'))" by auto
  from g r e le have 1: "\<exists>s. run ?cs init = Inr s \<and>
      names s = [] \<and> indentLevel s = 0 \<and> int (length (names s)) \<le> indentLevel s" by blast
  from r2 e2 u have 2: "\<exists>s s'. run [Enter (Some ''A'')] init = Inr s \<and> names s = [''A''] \<and>
      indentLevel s = 1 \<and>
      exports_unindent s = Inr s' \<and> indentLevel s' < int (length (names s'))" by blast
  from g 1 g2 2 show ?thesis by (intro conjI)
qed

text \<open>
  Claim C6. The indentation level is never negative: after every sequence of calls
  of the exported functions, started at module load, no exception has been raised, the
  level is at least 0, the unit is the one set at load, and the width is the level times
  the unit. Calling \<^verbatim>\<open>unindent\<close> at level 0 raises nothing and leaves the level at 0 and
  the width at 0, and a message logged after that is enqueued at width 0.
\<close>

theorem indent_level_never_negative:
  "\<exists>s. run cs init = Inr s \<and> 0 \<le> indentLevel s \<and> indentSize s = indentSize init \<and>
        indentWidth s = indentLevel s * indentSize s \<and>
        (indentLevel s = 0 \<longrightarrow>
           (\<exists>s'. exports_unindent s = Inr s' \<and> indentLevel s' = 0 \<and> indentWidth s' = 0 \<and>
              (\<forall>a. \<exists>s''. exports_log a s' = Inr s'' \<and>
                     queue s'' = queue s' @ [(format a, 0, LOG)])))"
proof -
  from run_wf [OF init_wf, of cs] obtain s where s: "run cs init = Inr s" "wf s" by blast
  note lv = wf_level [OF s(2)]
  have "\<exists>s'. exports_unindent s = Inr s' \<and> indentLevel s' = 0 \<and> indentWidth s' = 0 \<and>
              (\<forall>a. \<exists>s''. exports_log a s' = Inr s'' \<and>
                     queue s'' = queue s' @ [(format a, 0, LOG)])"
    if z: "indentLevel s = 0"
  proof -
    from exports_unindent_wf [OF s(2)] z obtain s' where
      s': "exports_unindent s = Inr s'" "wf s'" "indentLevel s' = 0" "indentWidth s' = 0"
      by auto
    have "\<exists>s''. exports_log a s' = Inr s'' \<and> queue s'' = queue s' @ [(format a, 0, LOG)]" for a
      using write_wf [OF s'(2), of "format a" LOG] s'(4) by (auto simp: exports_log_def)
    with s' show ?thesis by blast
  qed
  with s lv show ?thesis by (auto simp: init_def)
qed

theorem indent_level_never_negative_witness:
  "\<exists>s. run [Indent None, Unindent, Unindent] init = Inr s \<and> indentLevel s = 0 \<and>
        (\<exists>s'. exports_unindent s = Inr s' \<and> indentLevel s' = 0 \<and> indentWidth s' = 0 \<and>
           (\<exists>s''. exports_log (Some ''x'') s' = Inr s'' \<and> queue s'' = [(''x'', 0, LOG)]))"
proof -
  have r: "run [Indent None, Unindent, Unindent] init = Inr init"
    by (simp add: exports_indent_def exports_unindent_def init_def)
  have z: "indentLevel init = 0" and q: "queue init = []"
    by (simp_all add: init_def queue_def)
  from indent_level_never_negative [of "[Indent None, Unindent, Unindent]"] r z
  obtain s' where s': "exports_unindent init = Inr s'" "indentLevel s' = 0" "indentWidth s' = 0"
    "\<forall>a. \<exists>s''. exports_log a s' = Inr s'' \<and> queue s'' = queue s' @ [(format a, 0, LOG)]"
    by auto
  from s'(1) have "s' = init" by (simp add: exports_unindent_def init_def)
  moreover from s'(4) obtain s'' where
    "exports_log (Some ''x'') s' = Inr s''" "queue s'' = queue s' @ [(format (Some ''x''), 0, LOG)]"
    by blast
  ultimately show ?thesis using s' q r z by (simp add: format_def)
qed

text \<open>
  Claim C7. A message enqueued at width \<open>w\<close> is printed by \<^verbatim>\<open>show\<close> as
  \<^verbatim>\<open>indent\<close> of \<open>w\<close> spaces and its text, and every line of what is printed is the
  corresponding line of the text with exactly \<open>w\<close> spaces in front of it: the first
  line and every line after an embedded line break.
\<close>

theorem drain_indents_every_line:
  "run cs init = Inr s \<Longrightarrow>
   \<exists>s' printed. show_queue s = Some (Inr s') \<and>
     console s' = (if queue s = [] then [] else header # printed) \<and>
     list_all2 (\<lambda>(t, w, ty) (ch, out). 0 \<le> w \<and>
        out = indent (replicate (nat w) CHR '' '') t \<and>
        split_lines out = map (\<lambda>l. replicate (nat w) CHR '' '' @ l) (split_lines t))
       (queue s) printed"
proof -
  assume r: "run cs init = Inr s"
  have "list_all2 (\<lambda>(t, w, ty) (ch, out). 0 \<le> w \<and>
        out = indent (replicate (nat w) CHR '' '') t \<and>
        split_lines out = map (\<lambda>l. replicate (nat w) CHR '' '' @ l) (split_lines t))
       (queue s) (map line_of (queue s))"
    using wf_queue_widths [OF reachable_wf [OF r]]
    by (auto simp: list_all2_conv_all_nth list_all_length line_of_def split_lines_indent
        split: prod.splits)
  with reachable_show [OF r] show ?thesis
    by (auto simp: drain_lines_def)
qed

theorem drain_indents_every_line_witness:
  "\<exists>s s' ch. run [Indent None, Indent None, Log (Some ''a\<newline>b'')] init = Inr s \<and>
     queue s = [(''a\<newline>b'', 4, LOG)] \<and>
     show_queue s = Some (Inr s') \<and>
     console s' = [header, (ch, ''    a\<newline>    b'')] \<and>
     split_lines ''    a\<newline>    b'' = [''    a'', ''    b'']"
proof -
  let ?cs = "[Indent None, Indent None, Log (Some ''a\<newline>b'')]"
  have p: "list_all plain ?cs" by (simp add: plain_def)
  from run_plain [OF init_wf p] obtain s where
    r: "run ?cs init = Inr s" and q: "queue s = queue init @ logged (indentLevel init) ?cs"
    by blast
  have q': "queue s = [(''a\<newline>b'', 4, LOG)]"
    unfolding q by (simp add: queue_def init_def format_def)
  from drain_indents_every_line [OF r] obtain s' printed where
    sh: "show_queue s = Some (Inr s')" and
    c: "console s' = (if queue s = [] then [] else header # printed)" and
    l: "list_all2 (\<lambda>(t, w, ty) (ch, out). 0 \<le> w \<and>
        out = indent (replicate (nat w) CHR '' '') t \<and>
        split_lines out = map (\<lambda>l. replicate (nat w) CHR '' '' @ l) (split_lines t))
       (queue s) printed"
    by blast
  from l obtain ch out where pr: "printed = [(ch, out)]"
    "out = indent (replicate (nat 4) CHR '' '') ''a\<newline>b''"
    "split_lines out = map (\<lambda>l. replicate (nat 4) CHR '' '' @ l) (split_lines ''a\<newline>b'')"
    unfolding q' by (auto simp: list_all2_Cons1)
  have out: "out = ''    a\<newline>    b''"
    unfolding pr(2) by (simp add: indent_def replace_newlines_def eval_nat_numeral)
  have "split_lines ''    a\<newline>    b'' = [''    a'', ''    b'']"
    using pr(3) unfolding out by (simp add: eval_nat_numeral)
  moreover have "console s' = [header, (ch, ''    a\<newline>    b'')]"
    using c pr(1) out q' by simp
  ultimately show ?thesis using r q' sh by blast
qed

text \<open>
  Claim C8. The claim says that \<^verbatim>\<open>show\<close> sends a warning to the standard error stream,
  and names the \<^verbatim>\<open>show\<close> of both packages. In trace-log, \<^verbatim>\<open>warn('w')\<close> is printed by
  \<^verbatim>\<open>console.log\<close>, on the standard output stream.
\<close>

theorem trace_log_warn_counterexample:
  "\<exists>s s'. run_tl [Warn_tl (Some ''w'')] init_tl = Inr s \<and> show_tl s = Some (Inr s') \<and>
     console_tl s' = [(Stdout, replicate 80 CHR ''-''), (Stdout, ''w'')]"
proof -
  from run_wf_tl [OF init_wf_tl, of "[Warn_tl (Some ''w'')]"] obtain s where
    r: "run_tl [Warn_tl (Some ''w'')] init_tl = Inr s" by blast
  then have q: "queue_tl s = [(''w'', 0)]" by (auto simp: call_defs_tl)
  let ?s' = "s\<lparr> console_tl := drain_lines_tl (queue_tl s) \<rparr>"
  have sh: "show_tl s = Some (Inr ?s')" using r by (rule reachable_show_tl)
  have "console_tl ?s' = [(Stdout, replicate 80 CHR ''-''), (Stdout, ''w'')]"
    unfolding q by (simp add: drain_lines_tl_def header_def line_of_tl_def indent_def)
  with r sh show ?thesis by blast
qed

text \<open>
  Claim C8, as amended. In trace-console, in every state that calls of the exported
  functions can reach, every queued message has the type \<^verbatim>\<open>LOG\<close>, \<^verbatim>\<open>WARN\<close> or \<^verbatim>\<open>ERROR\<close>, and
  \<^verbatim>\<open>show\<close> prints a \<^verbatim>\<open>LOG\<close> message on the standard output stream and a \<^verbatim>\<open>WARN\<close> or \<^verbatim>\<open>ERROR\<close>
  message on the standard error stream. In trace-log, after every sequence of calls
  of its exported functions (\<^verbatim>\<open>log\<close>, \<^verbatim>\<open>warn\<close>, \<^verbatim>\<open>error\<close>, \<^verbatim>\<open>ignore\<close>, \<^verbatim>\<open>indent\<close>, \<^verbatim>\<open>unindent\<close>,
  \<^verbatim>\<open>enter\<close>, \<^verbatim>\<open>leave\<close>), \<^verbatim>\<open>show\<close> returns and prints the header line and one line per
  queued message, indented by the stored width, all of them on the standard output
  stream; and \<^verbatim>\<open>log\<close>, \<^verbatim>\<open>warn\<close> and \<^verbatim>\<open>error\<close> alike append their message to that queue.
\<close>

theorem drain_routes_by_severity:
  "run cs init = Inr s \<Longrightarrow>
   (\<exists>s' printed. show_queue s = Some (Inr s') \<and>
      console s' = (if queue s = [] then [] else header # printed) \<and>
      list_all2 (\<lambda>(t, w, ty) (ch, out).
          ty = LOG \<and> ch = Stdout \<or> (ty = WARN \<or> ty = ERROR) \<and> ch = Stderr)
        (queue s) printed) \<and>
   (\<exists>u u' printed. run_tl cs_tl init_tl = Inr u \<and> show_tl u = Some (Inr u') \<and>
      console_tl u' = (if queue_tl u = [] then [] else header # printed) \<and>
      list_all2 (\<lambda>(t, w) (ch, out). ch = Stdout \<and> out = indent (replicate (nat w) CHR '' '') t)
        (queue_tl u) printed \<and>
      list_all (\<lambda>(ch, out). ch = Stdout) (console_tl u') \<and>
      (\<exists>u1. exports_log_tl a u = Inr u1 \<and>
         queue_tl u1 = queue_tl u @ [(format a, indentWidth_tl u)]) \<and>
      (\<exists>u1. exports_warn_tl a u = Inr u1 \<and>
         queue_tl u1 = queue_tl u @ [(format a, indentWidth_tl u)]) \<and>
      (\<exists>u1. exports_error_tl a u = Inr u1 \<and>
         queue_tl u1 = queue_tl u @ [(format a, indentWidth_tl u)]))"
proof
  assume r: "run cs init = Inr s"
  have "list_all2 (\<lambda>(t, w, ty) (ch, out).
          ty = LOG \<and> ch = Stdout \<or> (ty = WARN \<or> ty = ERROR) \<and> ch = Stderr)
        (queue s) (map line_of (queue s))"
    using reachable_queue_types [OF r]
    by (auto simp: list_all2_conv_all_nth list_all_length line_of_def LOG_def WARN_def ERROR_def
        split: prod.splits)
  with reachable_show [OF r]
  show "\<exists>s' printed. show_queue s = Some (Inr s') \<and>
      console s' = (if queue s = [] then [] else header # printed) \<and>
      list_all2 (\<lambda>(t, w, ty) (ch, out).
          ty = LOG \<and> ch = Stdout \<or> (ty = WARN \<or> ty = ERROR) \<and> ch = Stderr)
        (queue s) printed"
    by (auto simp: drain_lines_def)
next
  from run_wf_tl [OF init_wf_tl, of cs_tl] obtain u where
    u: "run_tl cs_tl init_tl = Inr u" "wf_tl u" by blast
  let ?u' = "u\<lparr> console_tl := drain_lines_tl (queue_tl u) \<rparr>"
  have sh: "show_tl u = Some (Inr ?u')" using u(1) by (rule reachable_show_tl)
  have c: "console_tl ?u' = (if queue_tl u = [] then [] else header # map line_of_tl (queue_tl u))"
    by (simp add: drain_lines_tl_def)
  have l2: "list_all2 (\<lambda>(t, w) (ch, out). ch = Stdout \<and>
          out = indent (replicate (nat w) CHR '' '') t)
        (queue_tl u) (map line_of_tl (queue_tl u))"
    by (auto simp: list_all2_conv_all_nth line_of_tl_def split: prod.splits)
  have all: "list_all (\<lambda>(ch, out). ch = Stdout) (console_tl ?u')"
    by (auto simp: drain_lines_tl_def header_def line_of_tl_def list_all_iff split: prod.splits)
  from write_wf_tl [OF u(2), of "format a"]
  have w: "\<exists>u1. write_tl (format a) u = Inr u1 \<and>
         queue_tl u1 = queue_tl u @ [(format a, indentWidth_tl u)]" by blast
  show "\<exists>u u' printed. run_tl cs_tl init_tl = Inr u \<and> show_tl u = Some (Inr u') \<and>
      console_tl u' = (if queue_tl u = [] then [] else header # printed) \<and>
      list_all2 (\<lambda>(t, w) (ch, out). ch = Stdout \<and> out = indent (replicate (nat w) CHR '' '') t)
        (queue_tl u) printed \<and>
      list_all (\<lambda>(ch, out). ch = Stdout) (console_tl u') \<and>
      (\<exists>u1. exports_log_tl a u = Inr u1 \<and>
         queue_tl u1 = queue_tl u @ [(format a, indentWidth_tl u)]) \<and>
      (\<exists>u1. exports_warn_tl a u = Inr u1 \<and>
         queue_tl u1 = queue_tl u @ [(format a, indentWidth_tl u)]) \<and>
      (\<exists>u1. exports_error_tl a u = Inr u1 \<and>
         queue_tl u1 = queue_tl u @ [(format a, indentWidth_tl u)])"
  proof (rule exI, rule exI, rule exI, intro conjI)
    show "run_tl cs_tl init_tl = Inr u" by (rule u(1))
    show "show_tl u = Some (Inr ?u')" by (rule sh)
    show "console_tl ?u' =
        (if queue_tl u = [] then [] else header # map line_of_tl (queue_tl u))" by (rule c)
    show "list_all2 (\<lambda>(t, w) (ch, out). ch = Stdout \<and>
          out = indent (replicate (nat w) CHR '' '') t)
        (queue_tl u) (map line_of_tl (queue_tl u))" by (rule l2)
    show "list_all (\<lambda>(ch, out). ch = Stdout) (console_tl ?u')" by (rule all)
    show "\<exists>u1. exports_log_tl a u = Inr u1 \<and>
         queue_tl u1 = queue_tl u @ [(format a, indentWidth_tl u)]"
      using w by (simp add: exports_log_tl_def)
    show "\<exists>u1. exports_warn_tl a u = Inr u1 \<and>
         queue_tl u1 = queue_tl u @ [(format a, indentWidth_tl u)]"
      using w by (simp add: exports_warn_tl_def)
    show "\<exists>u1. exports_error_tl a u = Inr u1 \<and>
         queue_tl u1 = queue_tl u @ [(format a, indentWidth_tl u)]"
      using w by (simp add: exports_error_tl_def)
  qed
qed

theorem drain_routes_by_severity_witness:
  "\<exists>s s' u u'.
     run [Log (Some ''a''), Warn (Some ''b''), Error (Some ''c'')] init = Inr s \<and>
     show_queue s = Some (Inr s') \<and>
     map fst (console s') = [Stdout, Stdout, Stderr, Stderr] \<and>
     run_tl [Indent_tl None, Enter_tl (Some ''f x''), Warn_tl (Some ''b''), Leave_tl None,
             Error_tl (Some ''c'')] init_tl = Inr u \<and>
     queue_tl u = [(''> f x'', 2), (''b'', 4), (''< f'', 2), (''c'', 2)] \<and>
     show_tl u = Some (Inr u') \<and>
     console_tl u' = [header, (Stdout, ''  > f x''), (Stdout, ''    b''), (Stdout, ''  < f''),
                      (Stdout, ''  c'')]"
proof -
  let ?cs = "[Log (Some ''a''), Warn (Some ''b''), Error (Some ''c'')]"
  let ?cs_tl = "[Indent_tl None, Enter_tl (Some ''f x''), Warn_tl (Some ''b''), Leave_tl None,
             Error_tl (Some ''c'')]"
  have p: "list_all plain ?cs" by (simp add: plain_def)
  from run_plain [OF init_wf p] obtain s where
    r: "run ?cs init = Inr s" and q: "queue s = queue init @ logged (indentLevel init) ?cs"
    by blast
  have q': "queue s = [(''a'', 0, LOG), (''b'', 0, WARN), (''c'', 0, ERROR)]"
    unfolding q by (simp add: queue_def init_def format_def)
  from drain_routes_by_severity [OF r, of ?cs_tl] obtain s' printed u u' printed_tl where
    a: "show_queue s = Some (Inr s')"
      "console s' = (if queue s = [] then [] else header # printed)"
      "list_all2 (\<lambda>(t, w, ty) (ch, out).
          ty = LOG \<and> ch = Stdout \<or> (ty = WARN \<or> ty = ERROR) \<and> ch = Stderr)
        (queue s) printed" and
    b: "run_tl ?cs_tl init_tl = Inr u" "show_tl u = Some (Inr u')"
      "console_tl u' = (if queue_tl u = [] then [] else header # printed_tl)"
      "list_all2 (\<lambda>(t, w) (ch, out). ch = Stdout \<and>
          out = indent (replicate (nat w) CHR '' '') t) (queue_tl u) printed_tl"
    by blast
  from a(3) have "map fst printed = [Stdout, Stderr, Stderr]"
    unfolding q' by (auto simp: list_all2_Cons1 LOG_def WARN_def ERROR_def)
  with a(2) q' have c: "map fst (console s') = [Stdout, Stdout, Stderr, Stderr]"
    by (simp add: header_def)
  from b(1) have qu: "queue_tl u = [(''> f x'', 2), (''b'', 4), (''< f'', 2), (''c'', 2)]"
    by (auto simp: call_defs_tl)
  from b(4) have "printed_tl = [(Stdout, ''  > f x''), (Stdout, ''    b''), (Stdout, ''  < f''),
      (Stdout, ''  c'')]"
    unfolding qu by (auto simp: list_all2_Cons1 indent_def eval_nat_numeral)
  with b(3) qu have cu: "console_tl u' = [header, (Stdout, ''  > f x''), (Stdout, ''    b''),
      (Stdout, ''  < f''), (Stdout, ''  c'')]"
    by simp
  show ?thesis
  proof (intro exI conjI)
    show "run ?cs init = Inr s" by (rule r)
    show "show_queue s = Some (Inr s')" by (rule a(1))
    show "map fst (console s') = [Stdout, Stdout, Stderr, Stderr]" by (rule c)
    show "run_tl ?cs_tl init_tl = Inr u" by (rule b(1))
    show "queue_tl u = [(''> f x'', 2), (''b'', 4), (''< f'', 2), (''c'', 2)]" by (rule qu)
    show "show_tl u = Some (Inr u')" by (rule b(2))
    show "console_tl u' = [header, (Stdout, ''  > f x''), (Stdout, ''    b''),
      (Stdout, ''  < f''), (Stdout, ''  c'')]" by (rule cu)
  qed
qed

text \<open>
  Claim C9. \<^verbatim>\<open>show\<close> leaves the state of the module as it was: in every state that
  calls of the exported functions can reach, \<^verbatim>\<open>show\<close> returns, and the head and the tail
  of the queue, the \<^verbatim>\<open>Message\<close> objects, the indentation level and width and the saved
  names are the same after it; in particular the queue is not emptied.
\<close>

theorem drain_leaves_state_unchanged:
  "run cs init = Inr s \<Longrightarrow>
   \<exists>s'. show_queue s = Some (Inr s') \<and> head s' = head s \<and> tail s' = tail s \<and>
        heap s' = heap s \<and> fresh s' = fresh s \<and> queue s' = queue s \<and>
        indentSize s' = indentSize s \<and> indentLevel s' = indentLevel s \<and>
        indentWidth s' = indentWidth s \<and> names s' = names s"
proof -
  assume "run cs init = Inr s"
  then have "wf s" by (rule reachable_wf)
  from show_queue_wf [OF this] show ?thesis by (simp add: queue_def)
qed

theorem drain_leaves_state_unchanged_witness:
  "\<exists>s. run [Log (Some ''a'')] init = Inr s \<and>
     (\<exists>s'. show_queue s = Some (Inr s') \<and> head s' = Some 0 \<and> tail s' = Some 0 \<and>
        queue s' = [(''a'', 0, LOG)] \<and> indentLevel s' = 0 \<and> names s' = [])"
proof -
  from run_wf [OF init_wf, of "[Log (Some ''a'')]"] obtain s where
    r: "run [Log (Some ''a'')] init = Inr s" by blast
  then have "head s = Some 0" "tail s = Some 0" "queue s = [(''a'', 0, LOG)]"
    "indentLevel s = 0" "names s = []"
    by (auto simp: exports_log_def write_def init_def format_def new_Message_def Let_def
        queue_def entry_of_def)
  with drain_leaves_state_unchanged [OF r] r show ?thesis by auto
qed

text \<open>
  Claim C10. \<^verbatim>\<open>enter\<close> without arguments saves the empty string as the name and
  enqueues the open marker and its padding alone; \<^verbatim>\<open>enter\<close> with a message that has no
  word character saves the whole message and enqueues it behind marker and padding;
  both at the current width.
\<close>

theorem enter_without_word:
  "run cs init = Inr s \<Longrightarrow>
   (\<exists>s'. exports_enter None s = Inr s' \<and> names s' = names s @ [[]] \<and>
      queue s' = queue s @
        [(CHR ''>'' # replicate (nat (indentSize s) - 1) CHR '' '', indentWidth s, LOG)]) \<and>
   (\<not> list_ex is_word_char (format a) \<longrightarrow>
      (\<exists>s'. exports_enter a s = Inr s' \<and> names s' = names s @ [format a] \<and>
         queue s' = queue s @
           [(CHR ''>'' # replicate (nat (indentSize s) - 1) CHR '' '' @ format a,
             indentWidth s, LOG)]))"
proof -
  assume r: "run cs init = Inr s"
  note lv = reachable_level [OF r]
  have n: "match_word (format None) = None" by (simp add: match_word_def format_def)
  from exports_enter_wf [OF reachable_wf [OF r], of None] n lv
  have "\<exists>s'. exports_enter None s = Inr s' \<and> names s' = names s @ [[]] \<and>
      queue s' = queue s @
        [(CHR ''>'' # replicate (nat (indentSize s) - 1) CHR '' '', indentWidth s, LOG)]"
    by (auto simp: format_def eval_nat_numeral)
  moreover have "\<exists>s'. exports_enter a s = Inr s' \<and> names s' = names s @ [format a] \<and>
         queue s' = queue s @
           [(CHR ''>'' # replicate (nat (indentSize s) - 1) CHR '' '' @ format a,
             indentWidth s, LOG)]"
    if "\<not> list_ex is_word_char (format a)"
  proof -
    from that have "match_word (format a) = None" by (simp add: match_word_None)
    with exports_enter_wf [OF reachable_wf [OF r], of a] lv show ?thesis
      by (auto simp: eval_nat_numeral)
  qed
  ultimately show ?thesis by blast
qed

theorem enter_without_word_witness:
  "\<exists>s s1 s2. run [Indent None] init = Inr s \<and>
     exports_enter None s = Inr s1 \<and> names s1 = [[]] \<and> queue s1 = [(''> '', 2, LOG)] \<and>
     \<not> list_ex is_word_char ''...'' \<and>
     exports_enter (Some ''...'') s = Inr s2 \<and> names s2 = [''...''] \<and>
     queue s2 = [(''> ...'', 2, LOG)]"
proof -
  let ?cs = "[Indent None]"
  from run_wf [OF init_wf, of ?cs] obtain s where
    r: "run ?cs init = Inr s" and w: "wf s" by blast
  then have e: "names s = []" "queue s = []" "indentLevel s = 1" "indentSize s = 2"
    "indentWidth s = 2"
    by (auto simp: call_defs)
  have nw: "\<not> list_ex is_word_char (format (Some ''...''))"
    by (simp add: format_def is_word_char_def)
  from enter_without_word [OF r, of "Some ''...''"] nw obtain s1 s2 where
    "exports_enter None s = Inr s1" "names s1 = names s @ [[]]"
    "queue s1 = queue s @
        [(CHR ''>'' # replicate (nat (indentSize s) - 1) CHR '' '', indentWidth s, LOG)]"
    "exports_enter (Some ''...'') s = Inr s2" "names s2 = names s @ [format (Some ''...'')]"
    "queue s2 = queue s @
           [(CHR ''>'' # replicate (nat (indentSize s) - 1) CHR '' '' @ format (Some ''...''),
             indentWidth s, LOG)]"
    by blast
  with e nw have "exports_enter None s = Inr s1" "names s1 = [[]]"
    "queue s1 = [(''> '', 2, LOG)]" "\<not> list_ex is_word_char ''...''"
    "exports_enter (Some ''...'') s = Inr s2" "names s2 = [''...'']"
    "queue s2 = [(''> ...'', 2, LOG)]"
    by (simp_all add: format_def eval_nat_numeral)
  with r show ?thesis by blast
qed

end
